theory Spec2Isabelle
  imports Main "HOL-Library.Signed_Division"
begin

section \<open>Statuses and call outcomes\<close>

text \<open>
  A \<open>Status\<close> of the code base is either OK or carries an error code. The codes kept
  here are the ones the test and the write session of the specification can produce.
\<close>

datatype status =
    OK
  | InvalidArgument
  | TimedOut
  | IOError
  | SchemaMismatch
  | InvalidPrimaryKey

text \<open>
  How a call ends. \<open>Returns st\<close>: the call came back; for a function returning
  \<open>Status\<close> this is its value, for a \<open>void\<close> test function it is \<open>OK\<close> when the body ran
  to its end and otherwise the status that failed an \<open>ASSERT_OK\<close> (which leaves the
  function at once). \<open>Aborts st\<close>: a \<open>CHECK_OK\<close> saw \<open>st\<close> and killed the process.
  \<open>Blocks\<close>: the thread waits for ever inside the call.
\<close>

datatype outcome = Returns status | Aborts status | Blocks

section \<open>Schema, partial rows and \<open>MakeRow\<close>\<close>

datatype data_type = INT64 | STRING

record column_schema =
  col_name :: string
  col_type :: "data_type option"
  col_not_null :: bool
  col_primary_key :: bool

type_synonym YBSchema = "column_schema list"

text \<open>The builder calls of the fixture's constructor, one function per call.\<close>

definition AddColumn :: "string \<Rightarrow> column_schema" where
  "AddColumn name =
     \<lparr>col_name = name, col_type = None, col_not_null = False, col_primary_key = False\<rparr>"

definition Type :: "data_type \<Rightarrow> column_schema \<Rightarrow> column_schema" where
  "Type t c = c\<lparr>col_type := Some t\<rparr>"

definition NotNull :: "column_schema \<Rightarrow> column_schema" where
  "NotNull c = c\<lparr>col_not_null := True\<rparr>"

definition PrimaryKey :: "column_schema \<Rightarrow> column_schema" where
  "PrimaryKey c = c\<lparr>col_primary_key := True\<rparr>"

text \<open>
  \<open>UpdateScanDeltaCompactionTest()\<close>: the member \<open>schema_\<close> (a name cannot end in an
  underscore here, so it is \<open>schema\<close>), the schema of the test table, columns in the order
  they are added.
\<close>

definition schema :: YBSchema where
  "schema =
     [PrimaryKey (NotNull (Type INT64 (AddColumn ''key''))),
      NotNull (Type STRING (AddColumn ''string'')),
      NotNull (Type INT64 (AddColumn ''int64''))]"

text \<open>The anonymous enum of column indexes.\<close>

definition kKeyCol :: nat where "kKeyCol = 0"
definition kStrCol :: nat where "kStrCol = 1"
definition kInt64Col :: nat where "kInt64Col = 2"

text \<open>
  A column value. \<open>int64_t\<close> values are modelled as \<open>int\<close>: the keys of the test stay
  below the 32-bit flag \<open>row_count\<close> and the iteration counter never comes near
  \<open>2^63\<close>, so no arithmetic of the test wraps.
\<close>

datatype cell = Int64Val int | StringVal string

text \<open>A partial row: the schema it was created for and one optional value per column.\<close>

record YBPartialRow =
  row_schema :: YBSchema
  cells :: "cell option list"

definition new_row :: "YBSchema \<Rightarrow> YBPartialRow" where
  "new_row sch = \<lparr>row_schema = sch, cells = replicate (length sch) None\<rparr>"

text \<open>
  Modelled from the spec: the typed setters of \<open>YBPartialRow\<close> are not part of the
  sources. A setter stores the value when the column exists and has the setter's type,
  and answers \<open>InvalidArgument\<close> without changing the row otherwise.
\<close>

definition SetInt64 :: "nat \<Rightarrow> int \<Rightarrow> YBPartialRow \<Rightarrow> status \<times> YBPartialRow" where
  "SetInt64 idx v row =
     (if idx < length (row_schema row) \<and> col_type (row_schema row ! idx) = Some INT64
      then (OK, row\<lparr>cells := (cells row)[idx := Some (Int64Val v)]\<rparr>)
      else (InvalidArgument, row))"

definition SetStringCopy :: "nat \<Rightarrow> string \<Rightarrow> YBPartialRow \<Rightarrow> status \<times> YBPartialRow" where
  "SetStringCopy idx v row =
     (if idx < length (row_schema row) \<and> col_type (row_schema row ! idx) = Some STRING
      then (OK, row\<lparr>cells := (cells row)[idx := Some (StringVal v)]\<rparr>)
      else (InvalidArgument, row))"

text \<open>
  \<open>MakeRow(key, val, row)\<close>: three setters, each under \<open>CHECK_OK\<close>.
\<close>

definition MakeRow :: "int \<Rightarrow> int \<Rightarrow> YBPartialRow \<Rightarrow> outcome \<times> YBPartialRow" where
  "MakeRow key val row =
     (case SetInt64 kKeyCol key row of
        (st1, r1) \<Rightarrow>
          if st1 \<noteq> OK then (Aborts st1, r1)
          else (case SetStringCopy kStrCol ''TODO random string'' r1 of
            (st2, r2) \<Rightarrow>
              if st2 \<noteq> OK then (Aborts st2, r2)
              else (case SetInt64 kInt64Col val r2 of
                (st3, r3) \<Rightarrow>
                  if st3 \<noteq> OK then (Aborts st3, r3) else (Returns OK, r3))))"

text \<open>A mutation of the test: an insert or an update carrying its partial row.\<close>

datatype mutation = KuduInsert YBPartialRow | KuduUpdate YBPartialRow

fun mutable_row :: "mutation \<Rightarrow> YBPartialRow" where
  "mutable_row (KuduInsert r) = r"
| "mutable_row (KuduUpdate r) = r"

text \<open>\<open>table_->NewInsert()\<close> and \<open>table_->NewUpdate()\<close>: an empty row of the table's schema.\<close>

definition NewInsert :: mutation where
  "NewInsert = KuduInsert (new_row schema)"

definition NewUpdate :: mutation where
  "NewUpdate = KuduUpdate (new_row schema)"

section \<open>The tablet behind the table\<close>

text \<open>
  Modelled from the spec: the storage engine is not part of the sources. Following
  sections 3, 4.4 and 4.6 of the specification, a tablet holds a Base Store of rows keyed
  by primary key and a list of immutable Delta Units, each tagged with a sequence number.
  A flushed batch applies its mutations in the order they were buffered: an insert of a
  key that is not yet present adds a base row, an update of a present key is recorded in
  the Delta Unit of that batch, and the unit (when not empty) is appended with the next
  sequence number. The primary key of the test table is its first column.
\<close>

type_synonym row_cells = "cell option list"

record delta_unit =
  seq_no :: nat
  changes :: "(int \<times> row_cells) list"

record tablet =
  base :: "(int \<times> row_cells) list"
  deltas :: "delta_unit list"
  next_seq :: nat

definition empty_tablet :: tablet where
  "empty_tablet = \<lparr>base = [], deltas = [], next_seq = 0\<rparr>"

definition row_key :: "YBPartialRow \<Rightarrow> int option" where
  "row_key r = (case cells r of Some (Int64Val k) # rest \<Rightarrow> Some k | _ \<Rightarrow> None)"

fun write_op :: "mutation \<Rightarrow> (int \<times> row_cells) list \<times> (int \<times> row_cells) list
    \<Rightarrow> (int \<times> row_cells) list \<times> (int \<times> row_cells) list" where
  "write_op (KuduInsert r) (b, ch) =
     (case row_key r of
        None \<Rightarrow> (b, ch)
      | Some k \<Rightarrow> if k \<in> fst ` set b then (b, ch) else (b @ [(k, cells r)], ch))"
| "write_op (KuduUpdate r) (b, ch) =
     (case row_key r of
        None \<Rightarrow> (b, ch)
      | Some k \<Rightarrow> if k \<in> fst ` set b then (b, ch @ [(k, cells r)]) else (b, ch))"

definition write_batch :: "mutation list \<Rightarrow> tablet \<Rightarrow> tablet" where
  "write_batch ms t =
     (case foldl (\<lambda>acc m. write_op m acc) (base t, []) ms of
        (b, ch) \<Rightarrow>
          if ch = [] then t\<lparr>base := b\<rparr>
          else \<lparr>base = b,
                deltas = deltas t @ [\<lparr>seq_no = next_seq t, changes = ch\<rparr>],
                next_seq = next_seq t + 1\<rparr>)"

section \<open>Write session, synchronizer and the flush executor\<close>

text \<open>
  The two constants the write loops read: the flag \<open>FLAGS_row_count\<close> (2000 unless
  overridden) and \<open>kSessionBatchSize\<close> (1000 in the source). They are kept in a record
  so that the loops can be studied for every row count and every positive batch size;
  \<open>test_flags\<close> are the values of the source.
\<close>

record config =
  FLAGS_row_count :: int
  kSessionBatchSize :: int

definition test_flags :: config where
  "test_flags = \<lparr>FLAGS_row_count = 2000, kSessionBatchSize = 1000\<rparr>"

text \<open>
  What happened, in order: the calls of the writer thread and the callbacks of the flush
  executor. \<open>EvWait blocked st\<close>: a \<open>Wait\<close> returned \<open>st\<close>, after blocking or not.
  \<open>EvFlushAsync n b\<close>: flush number \<open>n\<close> was issued with batch \<open>b\<close>.
  \<open>EvStatusCB (Some n) st\<close>: the executor completed flush \<open>n\<close> and ran the callback with
  \<open>st\<close>; \<open>EvStatusCB None st\<close>: the test itself ran the callback.
\<close>

datatype event =
    EvApply mutation
  | EvWait bool status
  | EvReset
  | EvFlushAsync nat "mutation list"
  | EvStatusCB "nat option" status

text \<open>
  The state one writer thread works on. \<open>pending\<close>: the mutations buffered in its
  session; \<open>in_flight\<close>: the batches handed to the flush executor and not yet
  acknowledged, oldest first, each with its flush number and the number of further
  \<open>Apply\<close> calls of the writer that pass before the executor completes it;
  \<open>last_s\<close>: the synchronizer, \<open>None\<close> while its latch is up and \<open>Some st\<close> once the
  callback delivered \<open>st\<close>; \<open>store\<close>: the tablet; \<open>stop_reads\<close>: how many further reads of
  \<open>stop_latch->count()\<close> still see a positive count (the latch starts at 1 and is counted
  down once by \<open>RunThreads\<close>, so a thread sees finitely many positive reads and then zeros
  for ever). \<open>flush_status\<close> and \<open>flush_delay\<close> are the environment: the status the
  server answers flush \<open>n\<close> with, and how long it takes.
\<close>

record world =
  pending :: "mutation list"
  in_flight :: "(nat \<times> nat \<times> mutation list) list"
  flush_count :: nat
  last_s :: "status option"
  store :: tablet
  trace :: "event list"
  stop_reads :: nat
  flush_status :: "nat \<Rightarrow> status"
  flush_delay :: "nat \<Rightarrow> nat"

text \<open>
  Modelled from the spec: \<open>Synchronizer\<close> (the completion primitive of section 2) is not
  part of the sources. \<open>StatusCB\<close> resolves it with a status, \<open>Reset\<close> arms it again, and
  \<open>Wait\<close> (below, after the executor) returns the delivered status, at once when the
  synchronizer is already resolved.
\<close>

definition StatusCB :: "status \<Rightarrow> world \<Rightarrow> world" where
  "StatusCB st s = s\<lparr>last_s := Some st, trace := trace s @ [EvStatusCB None st]\<rparr>"

definition Reset :: "world \<Rightarrow> world" where
  "Reset s = s\<lparr>last_s := None, trace := trace s @ [EvReset]\<rparr>"

text \<open>
  Modelled from the spec: the flush executor. Completing the oldest batch in flight
  applies it to the tablet when the server answers OK (section 4.2: a successful flush
  durably applies all mutations of the batch in the order they were buffered), leaves the
  tablet alone otherwise, and runs the callback once with the answer.
\<close>

definition complete_flush :: "world \<Rightarrow> world" where
  "complete_flush s =
     (case in_flight s of
        [] \<Rightarrow> s
      | (n, d, b) # rest \<Rightarrow>
          s\<lparr>in_flight := rest,
            store := (if flush_status s n = OK then write_batch b (store s) else store s),
            last_s := Some (flush_status s n),
            trace := trace s @ [EvStatusCB (Some n) (flush_status s n)]\<rparr>)"

definition executor_step :: "world \<Rightarrow> world" where
  "executor_step s =
     (case in_flight s of
        [] \<Rightarrow> s
      | (n, d, b) # rest \<Rightarrow>
          if d = 0 then complete_flush s else s\<lparr>in_flight := (n, d - 1, b) # rest\<rparr>)"

text \<open>
  Modelled from the spec: \<open>Synchronizer::Wait\<close>, not part of the sources either. With
  the synchronizer resolved it returns the status at once. Otherwise the
  thread blocks until the executor completes the oldest batch in flight and runs the
  callback; with nothing in flight nobody will ever resolve the synchronizer.
\<close>

definition Wait :: "world \<Rightarrow> outcome \<times> world" where
  "Wait s =
     (case last_s s of
        Some st \<Rightarrow> (Returns st, s\<lparr>trace := trace s @ [EvWait False st]\<rparr>)
      | None \<Rightarrow>
          (case in_flight s of
             [] \<Rightarrow> (Blocks, s)
           | x # rest \<Rightarrow>
               (let s1 = complete_flush s; st = flush_status s (fst x)
                in (Returns st, s1\<lparr>trace := trace s1 @ [EvWait True st]\<rparr>))))"

text \<open>
  Modelled from the spec: the write session (section 4.2) is not part of the sources.
  \<open>Apply\<close> fails fast with \<open>SchemaMismatch\<close> when a set column does not fit the table's
  schema and with \<open>InvalidPrimaryKey\<close> when a key column is not set; otherwise it
  buffers the mutation (the session is in manual-flush mode, so nothing is flushed).
  \<open>FlushAsync\<close> takes all buffered mutations as one batch and hands it to the executor;
  the callback is always the one bound to \<open>last_s\<close>.
\<close>

fun cell_type :: "cell \<Rightarrow> data_type" where
  "cell_type (Int64Val v) = INT64"
| "cell_type (StringVal v) = STRING"

definition columns_match :: "YBSchema \<Rightarrow> YBPartialRow \<Rightarrow> bool" where
  "columns_match sch r =
     list_all2 (\<lambda>c v. case v of None \<Rightarrow> True | Some x \<Rightarrow> col_type c = Some (cell_type x))
       sch (cells r)"

definition primary_key_set :: "YBSchema \<Rightarrow> YBPartialRow \<Rightarrow> bool" where
  "primary_key_set sch r =
     list_all2 (\<lambda>c v. if col_primary_key c then v \<noteq> None else True) sch (cells r)"

definition apply_check :: "YBSchema \<Rightarrow> mutation \<Rightarrow> status" where
  "apply_check sch m =
     (if \<not> columns_match sch (mutable_row m) then SchemaMismatch
      else if \<not> primary_key_set sch (mutable_row m) then InvalidPrimaryKey
      else OK)"

definition Apply :: "mutation \<Rightarrow> world \<Rightarrow> status \<times> world" where
  "Apply m s =
     (let s1 = executor_step s
      in if apply_check schema m \<noteq> OK then (apply_check schema m, s1)
         else (OK, s1\<lparr>pending := pending s1 @ [m], trace := trace s1 @ [EvApply m]\<rparr>))"

definition FlushAsync :: "world \<Rightarrow> world" where
  "FlushAsync s =
     s\<lparr>pending := [],
       in_flight := in_flight s @ [(flush_count s, flush_delay s (flush_count s), pending s)],
       flush_count := flush_count s + 1,
       trace := trace s @ [EvFlushAsync (flush_count s) (pending s)]\<rparr>"

text \<open>
  \<open>CreateSession()\<close> followed by the declaration of \<open>last_s\<close> and its callback: a new
  session (manual flush, nothing buffered, nothing in flight) and a new synchronizer
  with its latch up. The history starts with the session. The timeout of 30 seconds set
  on the session shows only in what the server may answer (\<open>TimedOut\<close>).
\<close>

definition CreateSession :: "world \<Rightarrow> world" where
  "CreateSession s =
     s\<lparr>pending := [], in_flight := [], flush_count := 0, last_s := None, trace := []\<rparr>"

section \<open>The write loops of the test\<close>

text \<open>\<open>CHECK_OK\<close>: a status that is not OK kills the process.\<close>

fun CHECK_OK :: "outcome \<Rightarrow> outcome" where
  "CHECK_OK (Returns st) = (if st = OK then Returns OK else Aborts st)"
| "CHECK_OK out = out"

text \<open>
  \<open>WaitForLastBatchAndFlush(key, last_s, last_s_cb, session)\<close>. The C++ remainder
  truncates towards zero: \<open>smod\<close>. \<open>RETURN_NOT_OK\<close> leaves with the status of the wait.
\<close>

definition WaitForLastBatchAndFlush :: "config \<Rightarrow> int \<Rightarrow> world \<Rightarrow> outcome \<times> world" where
  "WaitForLastBatchAndFlush cfg key s =
     (if key smod kSessionBatchSize cfg = 0 then
        (case Wait s of
           (out, s1) \<Rightarrow>
             if out \<noteq> Returns OK then (out, s1)
             else (Returns OK, FlushAsync (Reset s1)))
      else (Returns OK, s))"

text \<open>The \<open>for\<close> loop of \<open>InsertBaseData\<close>, from \<open>key\<close> on.\<close>

function insert_rows :: "config \<Rightarrow> int \<Rightarrow> world \<Rightarrow> outcome \<times> world" where
  "insert_rows cfg key s =
     (if key < FLAGS_row_count cfg then
        (case MakeRow key 0 (mutable_row NewInsert) of
           (out1, row) \<Rightarrow>
             if out1 \<noteq> Returns OK then (out1, s)
             else (case Apply (KuduInsert row) s of
               (st, s1) \<Rightarrow>
                 if st \<noteq> OK then (Returns st, s1)
                 else (case WaitForLastBatchAndFlush cfg key s1 of
                   (out2, s2) \<Rightarrow>
                     if out2 \<noteq> Returns OK then (out2, s2)
                     else insert_rows cfg (key + 1) s2)))
      else (Returns OK, s))"
  by pat_completeness auto
termination
  by (relation "measure (\<lambda>(cfg, key, s). nat (FLAGS_row_count cfg - key))") auto

text \<open>\<open>InsertBaseData()\<close>.\<close>

definition InsertBaseData :: "config \<Rightarrow> world \<Rightarrow> outcome \<times> world" where
  "InsertBaseData cfg w =
     (let s = StatusCB OK (CreateSession w)
      in case insert_rows cfg 0 s of
           (out1, s1) \<Rightarrow>
             if out1 \<noteq> Returns OK then (out1, s1)
             else (case WaitForLastBatchAndFlush cfg (kSessionBatchSize cfg) s1 of
               (out2, s2) \<Rightarrow>
                 if out2 \<noteq> Returns OK then (out2, s2)
                 else Wait s2))"

text \<open>
  \<open>stop_latch->count()\<close>, read by the updating thread: 1 while reads that see the latch
  up are left, 0 from then on.
\<close>

definition count :: "world \<Rightarrow> nat \<times> world" where
  "count s =
     (if stop_reads s = 0 then (0, s) else (1, s\<lparr>stop_reads := stop_reads s - 1\<rparr>))"

text \<open>
  The inner \<open>for\<close> loop of \<open>UpdateRows\<close>, from \<open>key\<close> on. The latch is read only when
  \<open>key < FLAGS_row_count\<close> holds (\<open>&&\<close> evaluates left to right).
\<close>

function update_rows :: "config \<Rightarrow> int \<Rightarrow> int \<Rightarrow> world \<Rightarrow> outcome \<times> world" where
  "update_rows cfg iteration key s =
     (if key < FLAGS_row_count cfg then
        (case count s of
           (c, s0) \<Rightarrow>
             if c > 0 then
               (case MakeRow key iteration (mutable_row NewUpdate) of
                  (out1, row) \<Rightarrow>
                    if out1 \<noteq> Returns OK then (out1, s0)
                    else (case Apply (KuduUpdate row) s0 of
                      (st, s1) \<Rightarrow>
                        if st \<noteq> OK then (Aborts st, s1)
                        else (case WaitForLastBatchAndFlush cfg key s1 of
                          (out2, s2) \<Rightarrow>
                            if CHECK_OK out2 \<noteq> Returns OK then (CHECK_OK out2, s2)
                            else update_rows cfg iteration (key + 1) s2)))
             else (Returns OK, s0))
      else (Returns OK, s))"
  by pat_completeness auto
termination
  by (relation "measure (\<lambda>(cfg, iteration, key, s). nat (FLAGS_row_count cfg - key))") auto

text \<open>
  The outer \<open>for\<close> loop of \<open>UpdateRows\<close>, from \<open>iteration\<close> on: the callback is run with
  OK, one pass updates the rows, then the last batch is flushed, waited for, and the
  synchronizer is reset. Its termination is proved below, once it is known that no call
  of a pass gives the latch reads back.
\<close>

function update_passes :: "config \<Rightarrow> int \<Rightarrow> world \<Rightarrow> outcome \<times> world" where
  "update_passes cfg iteration s =
     (case count s of
        (c, s0) \<Rightarrow>
          if c > 0 then
            (case update_rows cfg iteration 0 (StatusCB OK s0) of
               (out1, s2) \<Rightarrow>
                 if out1 \<noteq> Returns OK then (out1, s2)
                 else (case WaitForLastBatchAndFlush cfg (kSessionBatchSize cfg) s2 of
                   (out2, s3) \<Rightarrow>
                     if CHECK_OK out2 \<noteq> Returns OK then (CHECK_OK out2, s3)
                     else (case Wait s3 of
                       (out3, s4) \<Rightarrow>
                         if CHECK_OK out3 \<noteq> Returns OK then (CHECK_OK out3, s4)
                         else update_passes cfg (iteration + 1) (Reset s4))))
          else (Returns OK, s0))"
  by pat_completeness auto

text \<open>\<open>UpdateRows(stop_latch)\<close>.\<close>

definition UpdateRows :: "config \<Rightarrow> world \<Rightarrow> outcome \<times> world" where
  "UpdateRows cfg w = update_passes cfg 1 (CreateSession w)"

section \<open>One flush at a time, read off the history\<close>

text \<open>
  The flush discipline as a checker over a history. Between the events the session is
  \<open>Idle\<close> (no flush issued whose completion has not been observed by a \<open>Wait\<close>),
  \<open>InFlight n\<close> (flush \<open>n\<close> issued, its callback not yet run) or \<open>Signalled n\<close> (the
  callback of flush \<open>n\<close> has run, no \<open>Wait\<close> has returned since). Issuing a flush is
  allowed only when \<open>Idle\<close>; a callback of the executor must be the one of the flush in
  flight. \<open>None\<close> is a violation.
\<close>

datatype flight = Idle | InFlight nat | Signalled nat

fun flight_step :: "flight option \<Rightarrow> event \<Rightarrow> flight option" where
  "flight_step None e = None"
| "flight_step (Some f) (EvFlushAsync n b) = (if f = Idle then Some (InFlight n) else None)"
| "flight_step (Some f) (EvStatusCB (Some n) st) =
     (if f = InFlight n then Some (Signalled n) else None)"
| "flight_step (Some f) (EvStatusCB None st) = Some f"
| "flight_step (Some f) (EvWait blocked st) =
     (case f of Signalled n \<Rightarrow> Some Idle | _ \<Rightarrow> Some f)"
| "flight_step (Some f) EvReset = Some f"
| "flight_step (Some f) (EvApply m) = Some f"

definition flight_of :: "event list \<Rightarrow> flight option" where
  "flight_of tr = foldl flight_step (Some Idle) tr"

definition one_flush_at_a_time :: "event list \<Rightarrow> bool" where
  "one_flush_at_a_time tr = (flight_of tr \<noteq> None)"

text \<open>The batches a history flushed, in order, and its number of flushes.\<close>

fun flushed_batches :: "event list \<Rightarrow> mutation list list" where
  "flushed_batches [] = []"
| "flushed_batches (EvFlushAsync n b # es) = b # flushed_batches es"
| "flushed_batches (e # es) = flushed_batches es"

text \<open>
  The number of flushes outstanding after a history: issued, and their callback not yet
  run by the executor.
\<close>

fun outstanding_step :: "int \<Rightarrow> event \<Rightarrow> int" where
  "outstanding_step k (EvFlushAsync n b) = k + 1"
| "outstanding_step k (EvStatusCB (Some n) st) = k - 1"
| "outstanding_step k e = k"

definition outstanding :: "event list \<Rightarrow> int" where
  "outstanding tr = foldl outstanding_step 0 tr"

text \<open>
  The flushes whose completion a \<open>Wait\<close> observed, in the order of the waits: a wait
  observes flush \<open>n\<close> when it returns while the session is \<open>Signalled n\<close>.
\<close>

fun observed_from :: "flight option \<Rightarrow> event list \<Rightarrow> nat list" where
  "observed_from f [] = []"
| "observed_from f (e # es) =
     (case (f, e) of
        (Some (Signalled n), EvWait blocked st) \<Rightarrow> n # observed_from (flight_step f e) es
      | _ \<Rightarrow> observed_from (flight_step f e) es)"

definition observed :: "event list \<Rightarrow> nat list" where
  "observed tr = observed_from (Some Idle) tr"

text \<open>The mutations a history applied, in order, and its first wait.\<close>

fun applied :: "event list \<Rightarrow> mutation list" where
  "applied [] = []"
| "applied (EvApply m # es) = m # applied es"
| "applied (e # es) = applied es"

fun first_wait :: "event list \<Rightarrow> (bool \<times> status) option" where
  "first_wait [] = None"
| "first_wait (EvWait blocked st # es) = Some (blocked, st)"
| "first_wait (e # es) = first_wait es"

text \<open>
  The invariants of the proofs below. \<open>session_ok\<close>: the history obeys the discipline
  and agrees with the state. \<open>ready\<close>: moreover a \<open>Wait\<close> would return (the synchronizer
  is resolved, or a flush is in flight that will resolve it). \<open>quiet\<close>: nothing in flight.
\<close>

definition session_ok :: "world \<Rightarrow> bool" where
  "session_ok s =
     (case flight_of (trace s) of
        None \<Rightarrow> False
      | Some Idle \<Rightarrow> in_flight s = []
      | Some (InFlight n) \<Rightarrow> map fst (in_flight s) = [n] \<and> last_s s = None
      | Some (Signalled n) \<Rightarrow> in_flight s = [] \<and> last_s s \<noteq> None)"

definition ready :: "world \<Rightarrow> bool" where
  "ready s = (session_ok s \<and> (in_flight s = [] \<and> last_s s \<noteq> None \<or> in_flight s \<noteq> []))"

definition quiet :: "world \<Rightarrow> bool" where
  "quiet s = (session_ok s \<and> in_flight s = [])"

text \<open>The row \<open>MakeRow key val\<close> builds on an empty row of the test schema.\<close>

definition made_row :: "int \<Rightarrow> int \<Rightarrow> YBPartialRow" where
  "made_row key val =
     \<lparr>row_schema = schema,
      cells = [Some (Int64Val key), Some (StringVal ''TODO random string''),
               Some (Int64Val val)]\<rparr>"

text \<open>The state after \<open>Apply\<close> accepted a mutation: the executor moved on, the mutation is buffered.\<close>

definition buffered :: "mutation \<Rightarrow> world \<Rightarrow> world" where
  "buffered m s =
     (executor_step s)\<lparr>pending := pending (executor_step s) @ [m],
       trace := trace (executor_step s) @ [EvApply m]\<rparr>"

text \<open>
  Bookkeeping invariants for the runs in which the server answers every flush with OK.
  \<open>all_ok\<close>: it does, and the synchronizer holds no error. \<open>settled\<close>: the tablet once
  the batches in flight have been written. \<open>accounted t0\<close>: starting from tablet \<open>t0\<close>, the
  settled tablet is \<open>t0\<close> with all flushed batches written in order; the mutations
  applied are the flushed ones followed by the buffered ones; flushes are numbered from
  0; and the completions observed so far are those of all flushes but the one that may
  still be awaited.
\<close>

definition all_ok :: "world \<Rightarrow> bool" where
  "all_ok s = ((\<forall>n. flush_status s n = OK) \<and> (last_s s = None \<or> last_s s = Some OK))"

definition settled :: "world \<Rightarrow> tablet" where
  "settled s = foldl (\<lambda>t x. write_batch (snd (snd x)) t) (store s) (in_flight s)"

definition tally :: "world \<Rightarrow> bool" where
  "tally s =
     (flush_count s = length (flushed_batches (trace s)) \<and>
      (case flight_of (trace s) of
         None \<Rightarrow> False
       | Some Idle \<Rightarrow> observed (trace s) = [0..<flush_count s]
       | Some (InFlight n) \<Rightarrow> Suc n = flush_count s \<and> observed (trace s) = [0..<n]
       | Some (Signalled n) \<Rightarrow> Suc n = flush_count s \<and> observed (trace s) = [0..<n]))"

definition accounted :: "tablet \<Rightarrow> world \<Rightarrow> bool" where
  "accounted t0 s =
     (all_ok s \<and> tally s \<and>
      settled s = foldl (\<lambda>t b. write_batch b t) t0 (flushed_batches (trace s)) \<and>
      concat (flushed_batches (trace s)) @ pending s = applied (trace s))"

text \<open>
  Where the insert loop stands when it is about to handle \<open>key\<close>: the rows
  \<open>0 .. key - 1\<close> have been applied in order; the batches flushed so far are one batch of
  one mutation and then full batches, each ending with the row of a multiple of the batch
  size; the rest is buffered.
\<close>

definition loaded :: "config \<Rightarrow> int \<Rightarrow> world \<Rightarrow> bool" where
  "loaded cfg key s =
     (applied (trace s) = map (\<lambda>k. KuduInsert (made_row k 0)) [0..key - 1] \<and>
      map length (flushed_batches (trace s)) =
        (if key \<le> 0 then []
         else 1 # replicate (nat ((key - 1) div kSessionBatchSize cfg))
                   (nat (kSessionBatchSize cfg))) \<and>
      map last (flushed_batches (trace s)) =
        (if key \<le> 0 then []
         else map (\<lambda>i. KuduInsert (made_row (i * kSessionBatchSize cfg) 0))
                [0..(key - 1) div kSessionBatchSize cfg]) \<and>
      int (length (pending s)) = (if key \<le> 0 then 0 else (key - 1) mod kSessionBatchSize cfg))"

section \<open>Scanning the tablet\<close>

text \<open>
  Modelled from the spec: the scanner is not part of the sources. Following section 4.6,
  a scan pins the tablet as it is when the scanner is opened and produces the base rows
  in primary-key order, each merged with the Delta Units in the order of their sequence
  numbers; a later unit overrides an earlier one column by column (section 4.4), and a
  column an update does not set keeps its value.
\<close>

definition merge_cells :: "row_cells \<Rightarrow> row_cells \<Rightarrow> row_cells" where
  "merge_cells old new = map (\<lambda>(a, b). case b of None \<Rightarrow> a | Some v \<Rightarrow> Some v) (zip old new)"

definition apply_unit :: "int \<Rightarrow> row_cells \<Rightarrow> delta_unit \<Rightarrow> row_cells" where
  "apply_unit k r u = foldl merge_cells r (map snd (filter (\<lambda>c. fst c = k) (changes u)))"

definition snapshot_rows :: "tablet \<Rightarrow> (int \<times> row_cells) list" where
  "snapshot_rows t =
     map (\<lambda>(k, r). (k, foldl (apply_unit k) r (sort_key seq_no (deltas t))))
       (sort_key fst (base t))"

text \<open>The rows of the base data: keys \<open>0 .. n - 1\<close>, each as \<open>MakeRow key 0\<close> made it.\<close>

definition base_rows :: "int \<Rightarrow> (int \<times> row_cells) list" where
  "base_rows n = map (\<lambda>k. (k, cells (made_row k 0))) [0..n - 1]"

text \<open>
  A cluster right after \<open>CreateTable\<close>: an empty tablet, a server that answers every flush
  with OK after \<open>d\<close> further applies of the writer, and a stop latch that is seen positive
  \<open>r\<close> more times.
\<close>

definition fresh_cluster :: "nat \<Rightarrow> nat \<Rightarrow> world" where
  "fresh_cluster d r =
     \<lparr>pending = [], in_flight = [], flush_count = 0, last_s = None, store = empty_tablet,
      trace = [], stop_reads = r, flush_status = (\<lambda>n. OK), flush_delay = (\<lambda>n. d)\<rparr>"

text \<open>
  How the history of an update pass ends: a wait returned OK, the synchronizer was reset,
  a flush was issued, the executor completed that very flush with OK, the writer blocked
  in a wait until then, and reset the synchronizer.
\<close>

definition drained_tail :: "event list \<Rightarrow> bool" where
  "drained_tail tr =
     (case rev tr of
        EvReset # EvWait True OK # EvStatusCB (Some n) OK # EvFlushAsync n' b # EvReset
          # EvWait blocked OK # earlier \<Rightarrow> n = n'
      | _ \<Rightarrow> False)"

section \<open>The asynchronous client initialiser\<close>

text \<open>
  The shared state behind \<open>client_promise_\<close> and \<open>client_future_\<close> (section 3 of
  the specification: pending, ready with a handle, or failed with an error), the two
  terminal errors of section 7, and the state of the background thread.
\<close>

datatype init_error = InitializationError | Cancelled

datatype 'c shared_state = Pending | Ready 'c | Failed init_error

datatype thread_state = Running | Exited

text \<open>What one call of \<open>client_builder_.Build\<close> can answer.\<close>

datatype 'c build_result = Built 'c | TransientFailure | FatalFailure

text \<open>
  \<open>class AsyncClientInitialiser\<close>: its five data members (a name cannot end in an
  underscore here). The builder is represented by what its successive \<open>Build\<close> calls
  answer, the promise by its shared state, and the shared future by the number of the
  shared state it refers to.
\<close>

record 'c AsyncClientInitialiser =
  client_builder :: "nat \<Rightarrow> 'c build_result"
  client_promise :: "'c shared_state"
  client_future :: nat
  init_client_thread :: thread_state
  stopping :: bool

text \<open>\<open>void Shutdown() { stopping_ = true; }\<close>\<close>

definition Shutdown :: "'c AsyncClientInitialiser \<Rightarrow> 'c AsyncClientInitialiser" where
  "Shutdown a = a\<lparr>stopping := True\<rparr>"

text \<open>\<open>get_client_future() const { return client_future_; }\<close>\<close>

definition get_client_future :: "'c AsyncClientInitialiser \<Rightarrow> nat" where
  "get_client_future a = client_future a"

text \<open>
  Modelled from the spec: \<open>InitClient\<close>, the body of the background thread, is declared in
  the header and defined outside the sources. Following section 4.1, it is a retry loop:
  at each check point it looks at the cancellation flag and, when the flag is set, leaves
  the loop, resolving the future with \<open>Cancelled\<close> unless it is already resolved; otherwise
  it makes the next attempt, resolves the future with the client on success and with
  \<open>InitializationError\<close> on an error that cannot be retried, and goes round again on a
  transient failure. \<open>attempt\<close> counts the attempts made so far. The loop need not end:
  \<open>None\<close> is a thread that retries for ever.
\<close>

partial_function (option) InitClient ::
    "'c AsyncClientInitialiser \<Rightarrow> nat \<Rightarrow> 'c AsyncClientInitialiser option" where
  "InitClient a attempt =
     (if stopping a then
        Some (a\<lparr>client_promise :=
                   (case client_promise a of Pending \<Rightarrow> Failed Cancelled | resolved \<Rightarrow> resolved),
                 init_client_thread := Exited\<rparr>)
      else
        (case client_builder a attempt of
           Built c \<Rightarrow> Some (a\<lparr>client_promise := Ready c, init_client_thread := Exited\<rparr>)
         | FatalFailure \<Rightarrow>
             Some (a\<lparr>client_promise := Failed InitializationError, init_client_thread := Exited\<rparr>)
         | TransientFailure \<Rightarrow> InitClient a (attempt + 1)))"

section \<open>Properties of the write loops\<close>


subsection \<open>Termination of the outer update loop\<close>

text \<open>
  No call made during a pass gives latch reads back, and entering a pass uses one up.
\<close>

lemma count_stop_reads: "count s = (c, s0) \<Longrightarrow> stop_reads s0 \<le> stop_reads s \<and> (c > 0 \<longrightarrow> stop_reads s0 < stop_reads s)"
  by (auto simp: count_def split: if_splits)

lemma complete_flush_stop_reads [simp]: "stop_reads (complete_flush s) = stop_reads s"
  by (simp add: complete_flush_def split: list.splits)

lemma executor_step_stop_reads [simp]: "stop_reads (executor_step s) = stop_reads s"
  by (simp add: executor_step_def split: list.splits)

lemma Wait_stop_reads: "Wait s = (out, s') \<Longrightarrow> stop_reads s' = stop_reads s"
  by (auto simp: Wait_def Let_def split: option.splits list.splits)

lemma Apply_stop_reads: "Apply m s = (st, s') \<Longrightarrow> stop_reads s' = stop_reads s"
  by (auto simp: Apply_def Let_def split: if_splits)

lemma WaitForLastBatchAndFlush_stop_reads:
  "WaitForLastBatchAndFlush cfg key s = (out, s') \<Longrightarrow> stop_reads s' = stop_reads s"
  by (auto simp: WaitForLastBatchAndFlush_def FlushAsync_def Reset_def
      split: if_splits prod.splits dest: Wait_stop_reads)

declare insert_rows.simps [simp del] update_rows.simps [simp del]

lemma update_rows_stop_reads:
  "update_rows cfg iteration key s = (out, s') \<Longrightarrow> stop_reads s' \<le> stop_reads s"
proof (induction cfg iteration key s arbitrary: out s' rule: update_rows.induct)
  case (1 cfg iteration key s)
  show ?case
  proof (cases "key < FLAGS_row_count cfg")
    case False
    with "1.prems" show ?thesis by (simp add: update_rows.simps[of cfg iteration key s])
  next
    case True
    obtain c s0 where c: "count s = (c, s0)" by (cases "count s")
    show ?thesis
    proof (cases "c > 0")
      case False
      with True c "1.prems" count_stop_reads[OF c] show ?thesis
        by (simp add: update_rows.simps[of cfg iteration key s])
    next
      case pos: True
      obtain out1 row where m: "MakeRow key iteration (mutable_row NewUpdate) = (out1, row)"
        by (cases "MakeRow key iteration (mutable_row NewUpdate)")
      obtain st s1 where a: "Apply (KuduUpdate row) s0 = (st, s1)"
        by (cases "Apply (KuduUpdate row) s0")
      obtain out2 s2 where w: "WaitForLastBatchAndFlush cfg key s1 = (out2, s2)"
        by (cases "WaitForLastBatchAndFlush cfg key s1")
      have le0: "stop_reads s0 \<le> stop_reads s" using count_stop_reads[OF c] by simp
      have e1: "stop_reads s1 = stop_reads s0" using Apply_stop_reads[OF a] .
      have e2: "stop_reads s2 = stop_reads s1" using WaitForLastBatchAndFlush_stop_reads[OF w] .
      show ?thesis
      proof (cases "out1 = Returns OK \<and> st = OK \<and> CHECK_OK out2 = Returns OK")
        case False
        with True c pos m a w "1.prems" le0 e1 e2 show ?thesis
          by (auto simp add: update_rows.simps[of cfg iteration key s] split: if_splits)
      next
        case ok: True
        have "update_rows cfg iteration (key + 1) s2 = (out, s')"
          using True c pos m a w ok "1.prems"
          by (simp add: update_rows.simps[of cfg iteration key s])
        from "1.IH"[OF True c[symmetric] pos m[symmetric] _ a[symmetric] _ w[symmetric] _ this] ok
        have "stop_reads s' \<le> stop_reads s2" by simp
        with le0 e1 e2 show ?thesis by simp
      qed
    qed
  qed
qed

lemma update_pass_stop_reads:
  assumes "(c, s0) = count s" and "0 < c"
    and "(out1, s2) = update_rows cfg iteration 0 (StatusCB OK s0)"
    and "(out2, s3) = WaitForLastBatchAndFlush cfg (kSessionBatchSize cfg) s2"
    and "(out3, s4) = Wait s3"
  shows "stop_reads (Reset s4) < stop_reads s"
proof -
  have "stop_reads s0 < stop_reads s"
    using count_stop_reads[OF assms(1)[symmetric]] assms(2) by simp
  moreover have "stop_reads s2 \<le> stop_reads (StatusCB OK s0)"
    using update_rows_stop_reads[OF assms(3)[symmetric]] .
  moreover have "stop_reads s3 = stop_reads s2"
    using WaitForLastBatchAndFlush_stop_reads[OF assms(4)[symmetric]] .
  moreover have "stop_reads s4 = stop_reads s3"
    using Wait_stop_reads[OF assms(5)[symmetric]] .
  ultimately show ?thesis
    by (simp add: Reset_def StatusCB_def)
qed

termination update_passes
  apply (relation "measure (\<lambda>(cfg, iteration, s). stop_reads s)")
   apply simp
  apply (simp del: CHECK_OK.simps)
  apply (erule (1) update_pass_stop_reads; assumption)
  done


subsection \<open>Histories that obey the discipline\<close>

lemma flight_of_snoc: "flight_of (tr @ [e]) = flight_step (flight_of tr) e"
  by (simp add: flight_of_def)

lemma flight_of_append: "flight_of (tr @ es) = foldl flight_step (flight_of tr) es"
  by (simp add: flight_of_def)

lemma flight_of_Nil [simp]: "flight_of [] = Some Idle"
  by (simp add: flight_of_def)

lemma outstanding_snoc: "outstanding (tr @ [e]) = outstanding_step (outstanding tr) e"
  by (simp add: outstanding_def)

lemma outstanding_step_flight:
  "flight_step (Some g) e = Some f \<Longrightarrow>
   outstanding_step (case g of InFlight n \<Rightarrow> 1 | _ \<Rightarrow> 0) e = (case f of InFlight n \<Rightarrow> 1 | _ \<Rightarrow> 0)"
  by (cases "(Some g, e)" rule: flight_step.cases) (auto split: if_splits flight.splits)

lemma outstanding_flight:
  "flight_of tr = Some f \<Longrightarrow> outstanding tr = (case f of InFlight n \<Rightarrow> 1 | _ \<Rightarrow> 0)"
proof (induction tr arbitrary: f rule: rev_induct)
  case Nil
  then show ?case by (simp add: outstanding_def)
next
  case (snoc e tr)
  from snoc.prems obtain g where g: "flight_of tr = Some g"
    by (cases "flight_of tr") (simp_all add: flight_of_snoc)
  from snoc.prems g have "flight_step (Some g) e = Some f"
    by (simp add: flight_of_snoc)
  from outstanding_step_flight[OF this] snoc.IH[OF g] show ?case
    by (simp add: outstanding_snoc)
qed

lemma flight_of_prefix: "flight_of (xs @ ys) \<noteq> None \<Longrightarrow> flight_of xs \<noteq> None"
proof (induction ys rule: rev_induct)
  case Nil then show ?case by simp
next
  case (snoc y ys)
  then show ?case
    by (cases "flight_of (xs @ ys)") (simp_all add: flight_of_snoc[of "xs @ ys", simplified])
qed

lemma one_flush_take: "one_flush_at_a_time tr \<Longrightarrow> one_flush_at_a_time (take n tr)"
  using flight_of_prefix[of "take n tr" "drop n tr"] by (simp add: one_flush_at_a_time_def)

lemma one_flush_outstanding: "one_flush_at_a_time tr \<Longrightarrow> outstanding tr \<le> 1 \<and> 0 \<le> outstanding tr"
  by (cases "flight_of tr") (auto simp: one_flush_at_a_time_def dest!: outstanding_flight split: flight.splits)


subsection \<open>The session operations keep the history and the state in step\<close>

lemma quiet_CreateSession: "quiet (CreateSession w)"
  by (simp add: quiet_def session_ok_def CreateSession_def)

lemma session_ok_cases:
  assumes "session_ok s"
  obtains (idle) "flight_of (trace s) = Some Idle" "in_flight s = []"
  | (flying) n d b where "flight_of (trace s) = Some (InFlight n)" "in_flight s = [(n, d, b)]"
      "last_s s = None"
  | (signalled) n st where "flight_of (trace s) = Some (Signalled n)" "in_flight s = []"
      "last_s s = Some st"
proof (cases "flight_of (trace s)")
  case None
  with assms show ?thesis by (simp add: session_ok_def)
next
  case (Some f)
  show ?thesis
  proof (cases f)
    case Idle
    with Some assms idle show ?thesis by (simp add: session_ok_def)
  next
    case (InFlight n)
    with Some assms have "map fst (in_flight s) = [n]" "last_s s = None"
      by (simp_all add: session_ok_def)
    then obtain d b where "in_flight s = [(n, d, b)]" by (cases "in_flight s") auto
    with Some InFlight \<open>last_s s = None\<close> flying show ?thesis by simp
  next
    case (Signalled n)
    with Some assms signalled show ?thesis by (auto simp: session_ok_def)
  qed
qed

lemma ready_StatusCB: "quiet s \<Longrightarrow> ready (StatusCB st s)"
  unfolding quiet_def
  by (erule conjE, erule session_ok_cases)
     (simp_all add: ready_def session_ok_def StatusCB_def flight_of_snoc)

lemma complete_flush_flying:
  assumes "flight_of (trace s) = Some (InFlight n)" "in_flight s = [(n, d, b)]"
  shows "quiet (complete_flush s)"
    and "last_s (complete_flush s) = Some (flush_status s n)"
    and "flight_of (trace (complete_flush s)) = Some (Signalled n)"
  using assms by (simp_all add: quiet_def session_ok_def complete_flush_def flight_of_snoc)

lemma ready_executor_step: "ready s \<Longrightarrow> ready (executor_step s)"
  unfolding ready_def
proof (erule conjE, erule session_ok_cases)
  fix n d b
  assume a: "flight_of (trace s) = Some (InFlight n)" "in_flight s = [(n, d, b)]" "last_s s = None"
  show "session_ok (executor_step s) \<and>
    (in_flight (executor_step s) = [] \<and> last_s (executor_step s) \<noteq> None \<or> in_flight (executor_step s) \<noteq> [])"
  proof (cases "d = 0")
    case True
    with a complete_flush_flying[OF a(1,2)] show ?thesis
      by (simp add: executor_step_def quiet_def)
  next
    case False
    with a show ?thesis by (simp add: executor_step_def session_ok_def)
  qed
qed (simp_all add: executor_step_def session_ok_def)

lemma ready_buffer:
  "ready s \<Longrightarrow> ready (s\<lparr>pending := p, trace := trace s @ [EvApply m]\<rparr>)"
  unfolding ready_def
  by (erule conjE, erule session_ok_cases)
     (simp_all add: session_ok_def flight_of_snoc)

lemma ready_Apply: "ready s \<Longrightarrow> Apply m s = (st, s') \<Longrightarrow> ready s'"
  using ready_executor_step[of s] ready_buffer[of "executor_step s"]
  by (auto simp: Apply_def Let_def split: if_splits)

lemma Wait_ready:
  assumes "ready s" "Wait s = (out, s')"
  shows "quiet s' \<and> flight_of (trace s') = Some Idle \<and> (\<exists>st. out = Returns st \<and> last_s s' = Some st)"
  using assms(1) unfolding ready_def
proof (elim conjE, elim session_ok_cases)
  fix n d b
  assume a: "flight_of (trace s) = Some (InFlight n)" "in_flight s = [(n, d, b)]" "last_s s = None"
  from complete_flush_flying[OF a(1,2)] a assms(2) show ?thesis
    by (auto simp: Wait_def Let_def quiet_def session_ok_def flight_of_snoc)
next
  assume "flight_of (trace s) = Some Idle" "in_flight s = []"
    "in_flight s = [] \<and> last_s s \<noteq> None \<or> in_flight s \<noteq> []"
  with assms(2) show ?thesis
    by (auto simp: Wait_def quiet_def session_ok_def flight_of_snoc)
next
  fix n st
  assume "flight_of (trace s) = Some (Signalled n)" "in_flight s = []" "last_s s = Some st"
  with assms(2) show ?thesis
    by (auto simp: Wait_def quiet_def session_ok_def flight_of_snoc)
qed

lemma ready_Reset_FlushAsync:
  assumes "quiet s" "flight_of (trace s) = Some Idle"
  shows "ready (FlushAsync (Reset s))"
  using assms by (simp add: quiet_def ready_def session_ok_def FlushAsync_def Reset_def flight_of_append)

lemma WaitForLastBatchAndFlush_ready:
  assumes "ready s" "WaitForLastBatchAndFlush cfg key s = (out, s')"
  shows "(\<exists>st. out = Returns st) \<and> (if out = Returns OK then ready s' else quiet s')"
proof (cases "key smod kSessionBatchSize cfg = 0")
  case False
  with assms show ?thesis by (auto simp: WaitForLastBatchAndFlush_def)
next
  case True
  obtain o1 s1 where w: "Wait s = (o1, s1)" by (cases "Wait s")
  from Wait_ready[OF assms(1) w] ready_Reset_FlushAsync[of s1] True w assms(2)
  show ?thesis
    by (auto simp: WaitForLastBatchAndFlush_def split: if_splits)
qed


subsection \<open>The loops keep the invariant\<close>

lemma ready_session_ok: "ready s \<Longrightarrow> session_ok s"
  by (simp add: ready_def)

lemma quiet_session_ok: "quiet s \<Longrightarrow> session_ok s"
  by (simp add: quiet_def)

lemma MakeRow_new_row: "MakeRow key val (new_row schema) = (Returns OK, made_row key val)"
  by (simp add: MakeRow_def SetInt64_def SetStringCopy_def new_row_def schema_def made_row_def
      kKeyCol_def kStrCol_def kInt64Col_def Type_def NotNull_def PrimaryKey_def AddColumn_def)

lemma MakeRow_NewInsert [simp]:
  "MakeRow key val (mutable_row NewInsert) = (Returns OK, made_row key val)"
  by (simp add: NewInsert_def MakeRow_new_row)

lemma MakeRow_NewUpdate [simp]:
  "MakeRow key val (mutable_row NewUpdate) = (Returns OK, made_row key val)"
  by (simp add: NewUpdate_def MakeRow_new_row)

lemma columns_match_made_row: "columns_match schema (made_row key val)"
  by (simp add: columns_match_def schema_def made_row_def Type_def NotNull_def PrimaryKey_def
      AddColumn_def)

lemma primary_key_set_made_row: "primary_key_set schema (made_row key val)"
  by (simp add: primary_key_set_def schema_def made_row_def Type_def NotNull_def PrimaryKey_def
      AddColumn_def)

lemma apply_check_made_row [simp]:
  "apply_check schema (KuduInsert (made_row key val)) = OK"
  "apply_check schema (KuduUpdate (made_row key val)) = OK"
  by (simp_all add: apply_check_def columns_match_made_row primary_key_set_made_row)


lemma Apply_made_row [simp]:
  "Apply (KuduInsert (made_row key val)) s = (OK, buffered (KuduInsert (made_row key val)) s)"
  "Apply (KuduUpdate (made_row key val)) s = (OK, buffered (KuduUpdate (made_row key val)) s)"
  by (simp_all add: Apply_def Let_def buffered_def)

lemma ready_buffered: "ready s \<Longrightarrow> ready (buffered m s)"
  using ready_executor_step[of s] ready_buffer[of "executor_step s"]
  by (simp add: buffered_def)

lemma insert_rows_step:
  "insert_rows cfg key s =
     (if key < FLAGS_row_count cfg then
        (case WaitForLastBatchAndFlush cfg key (buffered (KuduInsert (made_row key 0)) s) of
           (out2, s2) \<Rightarrow>
             if out2 \<noteq> Returns OK then (out2, s2) else insert_rows cfg (key + 1) s2)
      else (Returns OK, s))"
  by (subst insert_rows.simps) simp

lemma insert_rows_ready:
  "ready s \<Longrightarrow> insert_rows cfg key s = (out, s') \<Longrightarrow>
   (\<exists>st. out = Returns st) \<and> (if out = Returns OK then ready s' else quiet s')"
proof (induction cfg key s arbitrary: out s' rule: insert_rows.induct)
  case (1 cfg key s)
  show ?case
  proof (cases "key < FLAGS_row_count cfg")
    case False
    with "1.prems" show ?thesis by (auto simp: insert_rows_step[of cfg key s])
  next
    case True
    let ?s1 = "buffered (KuduInsert (made_row key 0)) s"
    obtain out2 s2 where w: "WaitForLastBatchAndFlush cfg key ?s1 = (out2, s2)"
      by (cases "WaitForLastBatchAndFlush cfg key ?s1")
    note r = WaitForLastBatchAndFlush_ready[OF ready_buffered[OF "1.prems"(1)] w]
    show ?thesis
    proof (cases "out2 = Returns OK")
      case False
      with True w r "1.prems"(2) show ?thesis
        by (auto simp: insert_rows_step[of cfg key s])
    next
      case ok: True
      with True w "1.prems"(2) have rec: "insert_rows cfg (key + 1) s2 = (out, s')"
        by (simp add: insert_rows_step[of cfg key s])
      from r ok have "ready s2" by simp
      from "1.IH"[OF True MakeRow_NewInsert[symmetric] _ Apply_made_row(1)[symmetric] _ w[symmetric] _ this rec] ok
      show ?thesis by simp
    qed
  qed
qed

lemma InsertBaseData_session_ok:
  "InsertBaseData cfg w = (out, s') \<Longrightarrow> (\<exists>st. out = Returns st) \<and> quiet s'"
proof -
  assume a: "InsertBaseData cfg w = (out, s')"
  let ?s = "StatusCB OK (CreateSession w)"
  have r0: "ready ?s" by (rule ready_StatusCB[OF quiet_CreateSession])
  obtain out1 s1 where i: "insert_rows cfg 0 ?s = (out1, s1)" by (cases "insert_rows cfg 0 ?s")
  note r1 = insert_rows_ready[OF r0 i]
  show ?thesis
  proof (cases "out1 = Returns OK")
    case False
    with a i r1 show ?thesis by (auto simp: InsertBaseData_def Let_def)
  next
    case True
    obtain out2 s2 where w: "WaitForLastBatchAndFlush cfg (kSessionBatchSize cfg) s1 = (out2, s2)"
      by (cases "WaitForLastBatchAndFlush cfg (kSessionBatchSize cfg) s1")
    from r1 True have "ready s1" by simp
    note r2 = WaitForLastBatchAndFlush_ready[OF this w]
    show ?thesis
    proof (cases "out2 = Returns OK")
      case False
      with a i w True r2 show ?thesis by (auto simp: InsertBaseData_def Let_def)
    next
      case ok2: True
      with r2 have "ready s2" by simp
      from Wait_ready[OF this, of out s'] a i w True ok2 show ?thesis
        by (auto simp: InsertBaseData_def Let_def)
    qed
  qed
qed


lemma count_cases: "count s = (c, s0) \<Longrightarrow> (c = 0 \<or> c = 1) \<and> (\<exists>k. s0 = s\<lparr>stop_reads := k\<rparr>)"
  by (auto simp: count_def split: if_splits intro: exI[of _ "stop_reads s"])

lemma session_ok_stop_reads [simp]: "session_ok (s\<lparr>stop_reads := k\<rparr>) = session_ok s"
  by (simp add: session_ok_def split: option.splits flight.splits)

lemma ready_stop_reads [simp]: "ready (s\<lparr>stop_reads := k\<rparr>) = ready s"
  by (simp add: ready_def)

lemma quiet_stop_reads [simp]: "quiet (s\<lparr>stop_reads := k\<rparr>) = quiet s"
  by (simp add: quiet_def)

lemma update_rows_step:
  "update_rows cfg iteration key s =
     (if key < FLAGS_row_count cfg then
        (case count s of
           (c, s0) \<Rightarrow>
             if c > 0 then
               (case WaitForLastBatchAndFlush cfg key
                       (buffered (KuduUpdate (made_row key iteration)) s0) of
                  (out2, s2) \<Rightarrow>
                    if CHECK_OK out2 \<noteq> Returns OK then (CHECK_OK out2, s2)
                    else update_rows cfg iteration (key + 1) s2)
             else (Returns OK, s0))
      else (Returns OK, s))"
  by (subst update_rows.simps) (simp del: CHECK_OK.simps split: prod.splits)

lemma CHECK_OK_Returns_OK [simp]: "(CHECK_OK out = Returns OK) = (out = Returns OK)"
  by (cases out) auto

lemma CHECK_OK_Blocks [simp]: "(CHECK_OK out = Blocks) = (out = Blocks)"
  by (cases out) auto

lemma update_rows_ready:
  "ready s \<Longrightarrow> update_rows cfg iteration key s = (out, s') \<Longrightarrow>
   out \<noteq> Blocks \<and> (if out = Returns OK then ready s' else quiet s')"
proof (induction cfg iteration key s arbitrary: out s' rule: update_rows.induct)
  case (1 cfg iteration key s)
  show ?case
  proof (cases "key < FLAGS_row_count cfg")
    case False
    with "1.prems" show ?thesis by (auto simp: update_rows_step[of cfg iteration key s])
  next
    case True
    obtain c s0 where c: "count s = (c, s0)" by (cases "count s")
    from count_cases[OF c] "1.prems"(1) have r0: "ready s0" by auto
    show ?thesis
    proof (cases "c > 0")
      case False
      with True c r0 "1.prems"(2) show ?thesis
        by (auto simp: update_rows_step[of cfg iteration key s])
    next
      case pos: True
      let ?s1 = "buffered (KuduUpdate (made_row key iteration)) s0"
      obtain out2 s2 where w: "WaitForLastBatchAndFlush cfg key ?s1 = (out2, s2)"
        by (cases "WaitForLastBatchAndFlush cfg key ?s1")
      note r = WaitForLastBatchAndFlush_ready[OF ready_buffered[OF r0] w]
      show ?thesis
      proof (cases "out2 = Returns OK")
        case False
        with True c pos w r "1.prems"(2) show ?thesis
          by (auto simp: update_rows_step[of cfg iteration key s])
      next
        case ok: True
        with True c pos w "1.prems"(2) have rec: "update_rows cfg iteration (key + 1) s2 = (out, s')"
          by (simp add: update_rows_step[of cfg iteration key s])
        from r ok have "ready s2" by simp
        from "1.IH"[OF True c[symmetric] pos MakeRow_NewUpdate[symmetric] _
            Apply_made_row(2)[symmetric] _ w[symmetric] _ this rec] ok
        show ?thesis by simp
      qed
    qed
  qed
qed

lemma quiet_Reset: "quiet s \<Longrightarrow> flight_of (trace s) = Some Idle \<Longrightarrow> quiet (Reset s)"
  by (simp add: quiet_def session_ok_def Reset_def flight_of_snoc)

declare update_passes.simps [simp del]

lemma update_passes_quiet:
  "quiet s \<Longrightarrow> update_passes cfg iteration s = (out, s') \<Longrightarrow> out \<noteq> Blocks \<and> quiet s'"
proof (induction cfg iteration s arbitrary: out s' rule: update_passes.induct)
  case (1 cfg iteration s)
  note prems = "1.prems"
  obtain c s0 where c: "count s = (c, s0)" by (cases "count s")
  from count_cases[OF c] prems(1) have q0: "quiet s0" by auto
  show ?case
  proof (cases "c > 0")
    case False
    with c q0 prems(2) show ?thesis by (auto simp: update_passes.simps[of cfg iteration s])
  next
    case pos: True
    obtain out1 s2 where u: "update_rows cfg iteration 0 (StatusCB OK s0) = (out1, s2)"
      by (cases "update_rows cfg iteration 0 (StatusCB OK s0)")
    note r1 = update_rows_ready[OF ready_StatusCB[OF q0] u]
    show ?thesis
    proof (cases "out1 = Returns OK")
      case False
      with c pos u r1 prems(2) show ?thesis
        by (auto simp: update_passes.simps[of cfg iteration s])
    next
      case ok1: True
      with r1 have rs2: "ready s2" by simp
      obtain out2 s3 where w: "WaitForLastBatchAndFlush cfg (kSessionBatchSize cfg) s2 = (out2, s3)"
        by (cases "WaitForLastBatchAndFlush cfg (kSessionBatchSize cfg) s2")
      note r2 = WaitForLastBatchAndFlush_ready[OF rs2 w]
      show ?thesis
      proof (cases "out2 = Returns OK")
        case False
        with c pos u ok1 w r2 prems(2) show ?thesis
          by (auto simp: update_passes.simps[of cfg iteration s])
      next
        case ok2: True
        with r2 have rs3: "ready s3" by simp
        obtain out3 s4 where v: "Wait s3 = (out3, s4)" by (cases "Wait s3")
        note r3 = Wait_ready[OF rs3 v]
        show ?thesis
        proof (cases "out3 = Returns OK")
          case False
          with c pos u ok1 w ok2 v r3 prems(2) show ?thesis
            by (auto simp: update_passes.simps[of cfg iteration s])
        next
          case ok3: True
          with c pos u ok1 w ok2 v prems(2)
          have rec: "update_passes cfg (iteration + 1) (Reset s4) = (out, s')"
            by (simp add: update_passes.simps[of cfg iteration s])
          from r3 have q4: "quiet (Reset s4)" by (simp add: quiet_Reset)
          from ok1 ok2 ok3 have a: "\<not> out1 \<noteq> Returns OK" "\<not> CHECK_OK out2 \<noteq> Returns OK"
            "\<not> CHECK_OK out3 \<noteq> Returns OK" by simp_all
          from "1.IH"[OF c[symmetric] pos u[symmetric] a(1) w[symmetric] a(2) v[symmetric] a(3) q4 rec]
          show ?thesis .
        qed
      qed
    qed
  qed
qed

lemma UpdateRows_quiet: "UpdateRows cfg w = (out, s') \<Longrightarrow> out \<noteq> Blocks \<and> quiet s'"
  unfolding UpdateRows_def by (rule update_passes_quiet[OF quiet_CreateSession])

lemma session_ok_history:
  assumes "session_ok s"
  shows "one_flush_at_a_time (take n (trace s)) \<and> outstanding (take n (trace s)) \<le> 1"
proof -
  from assms have "one_flush_at_a_time (trace s)"
    by (auto simp: session_ok_def one_flush_at_a_time_def split: option.splits)
  from one_flush_take[OF this, of n] one_flush_outstanding[of "take n (trace s)"]
  show ?thesis by simp
qed

text \<open>
  Claim C1. In every run of the two write loops (\<open>InsertBaseData\<close> and \<open>UpdateRows\<close>),
  whatever the row count, the batch size, the answers and the speed of the server and the
  moment the stop latch drops, and at every moment of the run (every prefix of the
  history): no flush is issued while an earlier flush has not had its completion observed
  by a \<open>Wait\<close>, at most one flush is outstanding, and no \<open>Wait\<close> blocks for ever.
\<close>

theorem write_loops_one_flush_outstanding:
  "one_flush_at_a_time (take n (trace (snd (InsertBaseData cfg w)))) \<and>
   outstanding (take n (trace (snd (InsertBaseData cfg w)))) \<le> 1 \<and>
   fst (InsertBaseData cfg w) \<noteq> Blocks \<and>
   one_flush_at_a_time (take n (trace (snd (UpdateRows cfg w)))) \<and>
   outstanding (take n (trace (snd (UpdateRows cfg w)))) \<le> 1 \<and>
   fst (UpdateRows cfg w) \<noteq> Blocks"
proof -
  obtain o1 s1 where i: "InsertBaseData cfg w = (o1, s1)" by (cases "InsertBaseData cfg w")
  obtain o2 s2 where u: "UpdateRows cfg w = (o2, s2)" by (cases "UpdateRows cfg w")
  from InsertBaseData_session_ok[OF i] UpdateRows_quiet[OF u]
    session_ok_history[of s1 n] session_ok_history[of s2 n] i u
  show ?thesis by (auto simp: quiet_def)
qed

subsection \<open>Bookkeeping when every flush is answered OK\<close>

lemma flushed_batches_append [simp]:
  "flushed_batches (xs @ ys) = flushed_batches xs @ flushed_batches ys"
  by (induction xs rule: flushed_batches.induct) simp_all

lemma applied_append [simp]: "applied (xs @ ys) = applied xs @ applied ys"
  by (induction xs rule: applied.induct) simp_all

lemma observed_from_snoc:
  "observed_from f (tr @ [e]) =
     observed_from f tr @
     (case (foldl flight_step f tr, e) of
        (Some (Signalled n), EvWait blocked st) \<Rightarrow> [n]
      | _ \<Rightarrow> [])"
proof (induction tr arbitrary: f)
  case Nil
  show ?case by (simp split: option.splits flight.splits event.splits)
next
  case (Cons x tr)
  show ?case by (simp add: Cons.IH split: option.splits flight.splits event.splits)
qed

lemma observed_snoc:
  "observed (tr @ [e]) =
     observed tr @
     (case (flight_of tr, e) of
        (Some (Signalled n), EvWait blocked st) \<Rightarrow> [n]
      | _ \<Rightarrow> [])"
  by (simp add: observed_def flight_of_def observed_from_snoc)

lemma accounted_CreateSession:
  "\<forall>n. flush_status w n = OK \<Longrightarrow> accounted (store w) (CreateSession w)"
  by (simp add: accounted_def all_ok_def tally_def settled_def CreateSession_def observed_def)

lemma accounted_stop_reads [simp]: "accounted t0 (s\<lparr>stop_reads := k\<rparr>) = accounted t0 s"
  by (simp add: accounted_def all_ok_def tally_def settled_def split: option.splits flight.splits)

lemma accounted_StatusCB: "accounted t0 s \<Longrightarrow> accounted t0 (StatusCB OK s)"
  by (auto simp: accounted_def all_ok_def tally_def settled_def StatusCB_def flight_of_snoc
      observed_snoc split: option.splits flight.splits)

lemma accounted_Reset: "accounted t0 s \<Longrightarrow> accounted t0 (Reset s)"
  by (auto simp: accounted_def all_ok_def tally_def settled_def Reset_def flight_of_snoc
      observed_snoc split: option.splits flight.splits)

lemma accounted_complete_flush:
  "accounted t0 s \<Longrightarrow> session_ok s \<Longrightarrow> accounted t0 (complete_flush s)"
  by (erule session_ok_cases)
     (auto simp: accounted_def all_ok_def tally_def settled_def complete_flush_def flight_of_snoc
      observed_snoc)

lemma session_ok_complete_flush: "session_ok s \<Longrightarrow> session_ok (complete_flush s)"
  by (erule session_ok_cases)
     (auto simp: session_ok_def complete_flush_def flight_of_snoc)

lemma accounted_delay:
  "accounted t0 s \<Longrightarrow> in_flight s = (n, d, b) # rest \<Longrightarrow>
   accounted t0 (s\<lparr>in_flight := (n, d', b) # rest\<rparr>)"
  by (simp add: accounted_def all_ok_def tally_def settled_def split: option.splits flight.splits)

lemma accounted_executor_step:
  "accounted t0 s \<Longrightarrow> session_ok s \<Longrightarrow> accounted t0 (executor_step s)"
  using accounted_complete_flush[of t0 s] accounted_delay[of t0 s]
  by (auto simp: executor_step_def split: list.splits)

lemma accounted_buffered:
  "accounted t0 s \<Longrightarrow> session_ok s \<Longrightarrow> accounted t0 (buffered m s)"
  using accounted_executor_step[of t0 s]
  by (auto simp: buffered_def accounted_def all_ok_def tally_def settled_def flight_of_snoc
      observed_snoc split: option.splits flight.splits)


lemma upt_snoc_eq: "Suc n = m \<Longrightarrow> [0..<n] @ [n] = [0..<m]"
  by auto

lemma Wait_accounted:
  assumes "ready s" "accounted t0 s" "Wait s = (out, s')"
  shows "out = Returns OK \<and> accounted t0 s' \<and> quiet s' \<and> flight_of (trace s') = Some Idle \<and>
         pending s' = pending s"
  using assms(1) unfolding ready_def
proof (elim conjE, elim session_ok_cases)
  fix n d b
  assume a: "flight_of (trace s) = Some (InFlight n)" "in_flight s = [(n, d, b)]" "last_s s = None"
  from assms(2) have ok: "flush_status s n = OK" by (simp add: accounted_def all_ok_def)
  from a assms(1) have acc: "accounted t0 (complete_flush s)"
    by (intro accounted_complete_flush[OF assms(2)]) (simp add: ready_def)
  have q: "quiet (complete_flush s)" and f: "flight_of (trace (complete_flush s)) = Some (Signalled n)"
    using complete_flush_flying[OF a(1,2)] by simp_all
  have p: "pending (complete_flush s) = pending s" using a by (simp add: complete_flush_def)
  from a assms(3) have s': "s' = (complete_flush s)\<lparr>trace := trace (complete_flush s) @ [EvWait True OK]\<rparr>"
    and out: "out = Returns OK"
    using ok by (auto simp: Wait_def Let_def)
  from acc q f p show ?thesis unfolding s' out
    by (auto simp: accounted_def all_ok_def tally_def settled_def quiet_def session_ok_def
        flight_of_snoc observed_snoc intro: upt_snoc_eq)
next
  assume a: "flight_of (trace s) = Some Idle" "in_flight s = []"
    "in_flight s = [] \<and> last_s s \<noteq> None \<or> in_flight s \<noteq> []"
  with assms(2) have l: "last_s s = Some OK" by (auto simp: accounted_def all_ok_def)
  with assms(3) have s': "s' = s\<lparr>trace := trace s @ [EvWait False OK]\<rparr>" and out: "out = Returns OK"
    by (auto simp: Wait_def)
  from a assms(2) show ?thesis unfolding s' out
    by (auto simp: accounted_def all_ok_def tally_def settled_def quiet_def session_ok_def
        flight_of_snoc observed_snoc intro: upt_snoc_eq)
next
  fix n st
  assume a: "flight_of (trace s) = Some (Signalled n)" "in_flight s = []" "last_s s = Some st"
  with assms(2) have l: "st = OK" by (auto simp: accounted_def all_ok_def)
  with a assms(3) have s': "s' = s\<lparr>trace := trace s @ [EvWait False OK]\<rparr>" and out: "out = Returns OK"
    by (auto simp: Wait_def)
  from a assms(2) show ?thesis unfolding s' out
    by (auto simp: accounted_def all_ok_def tally_def settled_def quiet_def session_ok_def
        flight_of_snoc observed_snoc intro: upt_snoc_eq)
qed

lemma accounted_Reset_FlushAsync:
  assumes "quiet s" "flight_of (trace s) = Some Idle" "accounted t0 s"
  shows "accounted t0 (FlushAsync (Reset s)) \<and> pending (FlushAsync (Reset s)) = []"
  using assms
  by (auto simp: accounted_def all_ok_def tally_def settled_def quiet_def FlushAsync_def Reset_def
      flight_of_append observed_snoc observed_snoc[of "tr @ [e]" for tr e, simplified]
      flight_of_snoc)

lemma WaitForLastBatchAndFlush_accounted:
  assumes "ready s" "accounted t0 s" "WaitForLastBatchAndFlush cfg key s = (out, s')"
  shows "out = Returns OK \<and> ready s' \<and> accounted t0 s'"
proof (cases "key smod kSessionBatchSize cfg = 0")
  case False
  with assms show ?thesis by (auto simp: WaitForLastBatchAndFlush_def)
next
  case True
  obtain o1 s1 where w: "Wait s = (o1, s1)" by (cases "Wait s")
  note r = Wait_accounted[OF assms(1,2) w]
  from r accounted_Reset_FlushAsync[of s1 t0] ready_Reset_FlushAsync[of s1] True w assms(3)
  show ?thesis
    by (auto simp: WaitForLastBatchAndFlush_def)
qed


subsection \<open>The batches of the insert loop\<close>

lemma smod_eq_0_iff_mod: "0 \<le> (k::int) \<Longrightarrow> 0 < n \<Longrightarrow> (k smod n = 0) = (k mod n = 0)"
  by (simp add: smod_int_alt_def sgn_if)

lemma pred_divmod:
  assumes "0 < (n::int)" "0 < k mod n"
  shows "(k - 1) mod n = k mod n - 1" "(k - 1) div n = k div n"
proof -
  have e: "k - 1 = n * (k div n) + (k mod n - 1)" by simp
  have r: "0 \<le> k mod n - 1" "k mod n - 1 < n"
    using assms pos_mod_bound[of n k] by linarith+
  show "(k - 1) mod n = k mod n - 1" by (rule int_mod_pos_eq[OF e r])
  show "(k - 1) div n = k div n" by (rule int_div_pos_eq[OF e r])
qed

lemma pred_divmod_dvd:
  assumes "0 < (n::int)" "k mod n = 0"
  shows "(k - 1) mod n = n - 1" "(k - 1) div n = k div n - 1"
proof -
  have "k = n * (k div n)" using assms(2) by (metis add.right_neutral mult_div_mod_eq)
  then have e: "k - 1 = n * (k div n - 1) + (n - 1)" by (simp add: algebra_simps)
  have r: "0 \<le> n - 1" "n - 1 < n" using assms by simp_all
  show "(k - 1) mod n = n - 1" by (rule int_mod_pos_eq[OF e r])
  show "(k - 1) div n = k div n - 1" by (rule int_div_pos_eq[OF e r])
qed

lemma complete_flush_history [simp]:
  "applied (trace (complete_flush s)) = applied (trace s)"
  "flushed_batches (trace (complete_flush s)) = flushed_batches (trace s)"
  "pending (complete_flush s) = pending s"
  by (simp_all add: complete_flush_def split: list.splits)

lemma executor_step_history [simp]:
  "applied (trace (executor_step s)) = applied (trace s)"
  "flushed_batches (trace (executor_step s)) = flushed_batches (trace s)"
  "pending (executor_step s) = pending s"
  by (simp_all add: executor_step_def split: list.splits)

lemma buffered_history [simp]:
  "applied (trace (buffered m s)) = applied (trace s) @ [m]"
  "flushed_batches (trace (buffered m s)) = flushed_batches (trace s)"
  "pending (buffered m s) = pending s @ [m]"
  by (simp_all add: buffered_def)

lemma Wait_history:
  "Wait s = (out, s') \<Longrightarrow>
   applied (trace s') = applied (trace s) \<and>
   flushed_batches (trace s') = flushed_batches (trace s) \<and> pending s' = pending s"
  by (auto simp: Wait_def Let_def split: option.splits list.splits)

lemma WaitForLastBatchAndFlush_history:
  assumes "WaitForLastBatchAndFlush cfg key s = (Returns OK, s')"
  shows "applied (trace s') = applied (trace s) \<and>
     (if key smod kSessionBatchSize cfg = 0
      then flushed_batches (trace s') = flushed_batches (trace s) @ [pending s] \<and> pending s' = []
      else flushed_batches (trace s') = flushed_batches (trace s) \<and> pending s' = pending s)"
proof (cases "key smod kSessionBatchSize cfg = 0")
  case False
  with assms show ?thesis by (auto simp: WaitForLastBatchAndFlush_def)
next
  case True
  obtain o1 s1 where w: "Wait s = (o1, s1)" by (cases "Wait s")
  from Wait_history[OF w] True w assms show ?thesis
    by (auto simp: WaitForLastBatchAndFlush_def FlushAsync_def Reset_def split: if_splits)
qed

lemma upto_snoc: "0 \<le> (key::int) \<Longrightarrow> [0..key] = [0..key - 1] @ [key]"
  by (simp add: upto_rec2)

lemma loaded_step:
  assumes K: "0 < kSessionBatchSize cfg" and k: "0 \<le> key"
    and l: "loaded cfg key s"
    and w: "WaitForLastBatchAndFlush cfg key (buffered (KuduInsert (made_row key 0)) s) = (Returns OK, s')"
  shows "loaded cfg (key + 1) s'"
proof -
  let ?K = "kSessionBatchSize cfg"
  note h = WaitForLastBatchAndFlush_history[OF w]
  have ap: "applied (trace s') = map (\<lambda>k. KuduInsert (made_row k 0)) [0..key]"
    using h l k by (simp add: loaded_def upto_snoc)
  show ?thesis
  proof (cases "key mod ?K = 0")
    case True
    then have sm: "key smod ?K = 0" using smod_eq_0_iff_mod[OF k K] by simp
    show ?thesis
    proof (cases "key = 0")
      case True
      with h sm l ap show ?thesis by (simp add: loaded_def)
    next
      case False
      with k have pos: "0 < key" by simp
      note d = pred_divmod_dvd[OF K True]
      have q: "0 \<le> (key - 1) div ?K" using K pos by (simp add: pos_imp_zdiv_nonneg_iff)
      have "nat (key div ?K) = Suc (nat ((key - 1) div ?K))" using d(2) q by simp
      moreover have "int (length (pending s)) = ?K - 1"
        using l pos d(1) by (simp add: loaded_def)
      then have "length (pending s) + 1 = nat ?K" by linarith
      moreover have "[0..key div ?K] = [0..(key - 1) div ?K] @ [key div ?K]"
        using d(2) q upto_snoc[of "key div ?K"] by simp
      moreover have "key div ?K * ?K = key" using mod_0_imp_dvd[OF True] by simp
      ultimately show ?thesis using h sm l ap pos True
        by (simp add: loaded_def replicate_append_same)
    qed
  next
    case False
    then have sm: "key smod ?K \<noteq> 0" using smod_eq_0_iff_mod[OF k K] by simp
    from False have pos: "0 < key" using k by (cases "key = 0") simp_all
    have m: "0 < key mod ?K" using False K pos_mod_sign[of ?K key] by linarith
    note d = pred_divmod[OF K m]
    show ?thesis using h sm l ap pos d by (simp add: loaded_def)
  qed
qed


lemma insert_rows_loaded:
  "0 < kSessionBatchSize cfg \<Longrightarrow> 0 \<le> key \<Longrightarrow> ready s \<Longrightarrow> accounted t0 s \<Longrightarrow> loaded cfg key s \<Longrightarrow>
    insert_rows cfg key s = (out, s') \<Longrightarrow>
    out = Returns OK \<and> ready s' \<and> accounted t0 s' \<and> loaded cfg (max key (FLAGS_row_count cfg)) s'"
proof (induction cfg key s arbitrary: out s' rule: insert_rows.induct)
  case (1 cfg key s)
  note K = "1.prems"(1) and k = "1.prems"(2) and r = "1.prems"(3) and a = "1.prems"(4)
    and l = "1.prems"(5) and run = "1.prems"(6)
  show ?case
  proof (cases "key < FLAGS_row_count cfg")
    case False
    with run r a l show ?thesis by (auto simp: insert_rows_step[of cfg key s] max_def)
  next
    case True
    let ?s1 = "buffered (KuduInsert (made_row key 0)) s"
    obtain out2 s2 where w: "WaitForLastBatchAndFlush cfg key ?s1 = (out2, s2)"
      by (cases "WaitForLastBatchAndFlush cfg key ?s1")
    have r1: "ready ?s1" by (rule ready_buffered[OF r])
    have a1: "accounted t0 ?s1" by (rule accounted_buffered[OF a ready_session_ok[OF r]])
    from WaitForLastBatchAndFlush_accounted[OF r1 a1 w]
    have ok: "out2 = Returns OK" and r2: "ready s2" and a2: "accounted t0 s2" by simp_all
    have l2: "loaded cfg (key + 1) s2" using loaded_step[OF K k l] w ok by simp
    from True w ok run have rec: "insert_rows cfg (key + 1) s2 = (out, s')"
      by (simp add: insert_rows_step[of cfg key s])
    have k2: "0 \<le> key + 1" using k by simp
    from ok have nn: "\<not> out2 \<noteq> Returns OK" by simp
    from "1.IH"[OF True MakeRow_NewInsert[symmetric] _ Apply_made_row(1)[symmetric] _ w[symmetric] nn
        K k2 r2 a2 l2 rec] True
    show ?thesis by (simp add: max_def)
  qed
qed

lemma loaded_start: "loaded cfg 0 (StatusCB OK (CreateSession w))"
  by (simp add: loaded_def StatusCB_def CreateSession_def)

lemma smod_self [simp]: "(k::int) smod k = 0"
  by (simp add: smod_int_alt_def)

lemma InsertBaseData_loaded:
  assumes K: "0 < kSessionBatchSize cfg" and ok: "\<forall>n. flush_status w n = OK"
    and run: "InsertBaseData cfg w = (out, s')"
  shows "out = Returns OK \<and> quiet s' \<and> accounted (store w) s' \<and>
     flight_of (trace s') = Some Idle \<and> pending s' = [] \<and>
     (\<exists>s1. loaded cfg (max 0 (FLAGS_row_count cfg)) s1 \<and>
        flushed_batches (trace s') = flushed_batches (trace s1) @ [pending s1] \<and>
        applied (trace s') = applied (trace s1))"
proof -
  let ?s = "StatusCB OK (CreateSession w)"
  have r0: "ready ?s" by (rule ready_StatusCB[OF quiet_CreateSession])
  have a0: "accounted (store w) ?s" by (rule accounted_StatusCB[OF accounted_CreateSession[OF ok]])
  obtain out1 s1 where i: "insert_rows cfg 0 ?s = (out1, s1)" by (cases "insert_rows cfg 0 ?s")
  from insert_rows_loaded[OF K _ r0 a0 loaded_start i]
  have o1: "out1 = Returns OK" and r1: "ready s1" and a1: "accounted (store w) s1"
    and l1: "loaded cfg (max 0 (FLAGS_row_count cfg)) s1" by simp_all
  obtain out2 s2 where w: "WaitForLastBatchAndFlush cfg (kSessionBatchSize cfg) s1 = (out2, s2)"
    by (cases "WaitForLastBatchAndFlush cfg (kSessionBatchSize cfg) s1")
  from WaitForLastBatchAndFlush_accounted[OF r1 a1 w]
  have o2: "out2 = Returns OK" and r2: "ready s2" and a2: "accounted (store w) s2" by simp_all
  from WaitForLastBatchAndFlush_history[of cfg "kSessionBatchSize cfg" s1 s2] w o2
  have h2: "applied (trace s2) = applied (trace s1)"
    "flushed_batches (trace s2) = flushed_batches (trace s1) @ [pending s1]" "pending s2 = []"
    by simp_all
  from run i o1 w o2 have v: "Wait s2 = (out, s')" by (simp add: InsertBaseData_def Let_def)
  from Wait_accounted[OF r2 a2 v] Wait_history[OF v] h2 l1 show ?thesis by auto
qed

subsection \<open>The tablet after the base data\<close>

lemma row_key_made_row [simp]: "row_key (made_row k v) = Some k"
  by (simp add: row_key_def made_row_def)

lemma fst_base_rows: "map fst (base_rows n) = [0..n - 1]"
  by (simp add: base_rows_def comp_def)

lemma base_rows_snoc: "0 \<le> n \<Longrightarrow> base_rows (n + 1) = base_rows n @ [(n, cells (made_row n 0))]"
  by (simp add: base_rows_def upto_snoc)

lemma write_op_insert_next:
  "0 \<le> n \<Longrightarrow> write_op (KuduInsert (made_row n 0)) (base_rows n, []) = (base_rows (n + 1), [])"
proof -
  assume n: "0 \<le> n"
  have "n \<notin> fst ` set (base_rows n)"
    using fst_base_rows[of n] by (metis atLeastAtMost_iff list.set_map set_upto zle_diff1_eq less_irrefl)
  with n show ?thesis by (simp add: base_rows_snoc)
qed

lemma foldl_write_op_inserts:
  "0 \<le> n \<Longrightarrow>
   foldl (\<lambda>acc m. write_op m acc) ([], []) (map (\<lambda>k. KuduInsert (made_row k 0)) [0..n - 1]) =
     (base_rows n, [])"
proof (induction n rule: int_ge_induct)
  case base
  show ?case by (simp add: base_rows_def)
next
  case (step i)
  have "[0..i + 1 - 1] = [0..i - 1] @ [i]" using step.hyps upto_snoc[of i] by simp
  with step write_op_insert_next[OF step.hyps] show ?case by (simp del: write_op.simps)
qed

lemma write_op_insert_no_change:
  "snd (write_op (KuduInsert r) (b, ch)) = ch"
  by (simp split: option.splits)

lemma foldl_write_op_inserts_snd:
  "\<forall>m\<in>set ms. \<exists>r. m = KuduInsert r \<Longrightarrow>
   snd (foldl (\<lambda>acc m. write_op m acc) (b, ch) ms) = ch"
proof (induction ms arbitrary: b ch)
  case Nil
  show ?case by simp
next
  case (Cons m ms)
  then obtain r where m: "m = KuduInsert r" by auto
  obtain b' where "write_op m (b, ch) = (b', ch)"
    using write_op_insert_no_change[of r b ch] m by (cases "write_op m (b, ch)") auto
  with Cons show ?case by simp
qed

lemma write_batch_inserts:
  assumes "\<forall>m\<in>set ms. \<exists>r. m = KuduInsert r"
  shows "write_batch ms t = t\<lparr>base := fst (foldl (\<lambda>acc m. write_op m acc) (base t, []) ms)\<rparr>"
  using foldl_write_op_inserts_snd[OF assms, of "base t" "[]"]
  by (cases "foldl (\<lambda>acc m. write_op m acc) (base t, []) ms") (simp add: write_batch_def)

lemma foldl_write_batch_inserts:
  "\<forall>m\<in>set (concat bs). \<exists>r. m = KuduInsert r \<Longrightarrow>
   foldl (\<lambda>t b. write_batch b t) t bs =
     t\<lparr>base := fst (foldl (\<lambda>acc m. write_op m acc) (base t, []) (concat bs))\<rparr>"
proof (induction bs arbitrary: t)
  case Nil
  show ?case by simp
next
  case (Cons b bs)
  have b: "\<forall>m\<in>set b. \<exists>r. m = KuduInsert r" and bs: "\<forall>m\<in>set (concat bs). \<exists>r. m = KuduInsert r"
    using Cons.prems by auto
  let ?f = "foldl (\<lambda>acc m. write_op m acc)"
  obtain b1 where f1: "?f (base t, []) b = (b1, [])"
    using foldl_write_op_inserts_snd[OF b, of "base t" "[]"] by (cases "?f (base t, []) b") auto
  show ?case
    by (simp add: Cons.IH[OF bs] write_batch_inserts[OF b] f1)
qed

lemma snapshot_rows_base_only:
  "sorted (map fst (base t)) \<Longrightarrow> deltas t = [] \<Longrightarrow> snapshot_rows t = base t"
  by (simp add: snapshot_rows_def sort_key_id_if_sorted case_prod_beta)

lemma InsertBaseData_batches:
  assumes K: "0 < kSessionBatchSize cfg" and N: "0 < FLAGS_row_count cfg"
    and ok: "\<forall>n. flush_status w n = OK"
    and run: "InsertBaseData cfg w = (out, s')"
  shows "map length (flushed_batches (trace s')) =
       1 # replicate (nat ((FLAGS_row_count cfg - 1) div kSessionBatchSize cfg))
             (nat (kSessionBatchSize cfg))
         @ [nat ((FLAGS_row_count cfg - 1) mod kSessionBatchSize cfg)]"
    and "map last (butlast (flushed_batches (trace s'))) =
       map (\<lambda>i. KuduInsert (made_row (i * kSessionBatchSize cfg) 0))
         [0..(FLAGS_row_count cfg - 1) div kSessionBatchSize cfg]"
    and "concat (flushed_batches (trace s')) =
       map (\<lambda>k. KuduInsert (made_row k 0)) [0..FLAGS_row_count cfg - 1]"
proof -
  from InsertBaseData_loaded[OF K ok run] obtain s1 where
    a: "accounted (store w) s'" and p: "pending s' = []"
    and l: "loaded cfg (max 0 (FLAGS_row_count cfg)) s1"
    and f: "flushed_batches (trace s') = flushed_batches (trace s1) @ [pending s1]"
    and ap: "applied (trace s') = applied (trace s1)" by blast
  from N have m: "max 0 (FLAGS_row_count cfg) = FLAGS_row_count cfg" by simp
  have "int (length (pending s1)) = (FLAGS_row_count cfg - 1) mod kSessionBatchSize cfg"
    using l N unfolding m loaded_def by simp
  then have len: "length (pending s1) = nat ((FLAGS_row_count cfg - 1) mod kSessionBatchSize cfg)"
    by linarith
  show "map length (flushed_batches (trace s')) =
       1 # replicate (nat ((FLAGS_row_count cfg - 1) div kSessionBatchSize cfg))
             (nat (kSessionBatchSize cfg))
         @ [nat ((FLAGS_row_count cfg - 1) mod kSessionBatchSize cfg)]"
    using l N len unfolding m loaded_def f by simp
  show "map last (butlast (flushed_batches (trace s'))) =
       map (\<lambda>i. KuduInsert (made_row (i * kSessionBatchSize cfg) 0))
         [0..(FLAGS_row_count cfg - 1) div kSessionBatchSize cfg]"
    using l N unfolding m loaded_def f by simp
  have "concat (flushed_batches (trace s')) = applied (trace s')"
    using a p by (simp add: accounted_def)
  then show "concat (flushed_batches (trace s')) =
       map (\<lambda>k. KuduInsert (made_row k 0)) [0..FLAGS_row_count cfg - 1]"
    using l ap unfolding m loaded_def by simp
qed

lemma first_batch:
  assumes "map length bs = 1 # ls" "concat bs = x # xs"
  shows "hd bs = [x]"
proof -
  from assms(1) obtain b rest where bs: "bs = b # rest" and "length b = 1" by (cases bs) auto
  then obtain y where "b = [y]" by (cases b) auto
  with bs assms(2) show ?thesis by simp
qed

text \<open>
  Claim C9. In \<open>InsertBaseData\<close> with a positive batch size, at least one row and a
  server that answers every flush with OK, the flush is triggered right after the apply
  of each key that is a multiple of the batch size: the batches flushed inside the loop
  end with the rows of the keys 0, K, 2K, ...; the first batch is the single row of key
  0, every later batch of the loop holds exactly K mutations, and the flush after the
  loop carries the remaining \<open>(row_count - 1) mod K\<close> mutations. All rows are flushed, in
  key order.
\<close>

theorem insert_flush_batches:
  assumes "0 < kSessionBatchSize cfg" and "0 < FLAGS_row_count cfg"
    and "\<forall>n. flush_status w n = OK"
  shows "fst (InsertBaseData cfg w) = Returns OK \<and>
    hd (flushed_batches (trace (snd (InsertBaseData cfg w)))) = [KuduInsert (made_row 0 0)] \<and>
    map length (flushed_batches (trace (snd (InsertBaseData cfg w)))) =
       1 # replicate (nat ((FLAGS_row_count cfg - 1) div kSessionBatchSize cfg))
             (nat (kSessionBatchSize cfg))
         @ [nat ((FLAGS_row_count cfg - 1) mod kSessionBatchSize cfg)] \<and>
    map last (butlast (flushed_batches (trace (snd (InsertBaseData cfg w))))) =
       map (\<lambda>i. KuduInsert (made_row (i * kSessionBatchSize cfg) 0))
         [0..(FLAGS_row_count cfg - 1) div kSessionBatchSize cfg] \<and>
    concat (flushed_batches (trace (snd (InsertBaseData cfg w)))) =
       map (\<lambda>k. KuduInsert (made_row k 0)) [0..FLAGS_row_count cfg - 1]"
proof -
  obtain out s' where run: "InsertBaseData cfg w = (out, s')" by (cases "InsertBaseData cfg w")
  note b = InsertBaseData_batches[OF assms run]
  have "[0..FLAGS_row_count cfg - 1] = 0 # [1..FLAGS_row_count cfg - 1]"
    using assms(2) by (simp add: upto_rec1)
  with b(3) have "concat (flushed_batches (trace s')) =
      KuduInsert (made_row 0 0) # map (\<lambda>k. KuduInsert (made_row k 0)) [1..FLAGS_row_count cfg - 1]"
    by simp
  from first_batch[OF b(1) this] b InsertBaseData_loaded[OF assms(1,3) run] run
  show ?thesis by simp
qed

theorem insert_flush_batches_witness:
  "0 < kSessionBatchSize test_flags \<and> 0 < FLAGS_row_count test_flags \<and>
   (\<forall>n. flush_status (fresh_cluster 0 0) n = OK) \<and>
   fst (InsertBaseData test_flags (fresh_cluster 0 0)) = Returns OK \<and>
   hd (flushed_batches (trace (snd (InsertBaseData test_flags (fresh_cluster 0 0))))) =
     [KuduInsert (made_row 0 0)] \<and>
   map length (flushed_batches (trace (snd (InsertBaseData test_flags (fresh_cluster 0 0))))) =
     [1, 1000, 999]"
proof -
  have h: "0 < kSessionBatchSize test_flags" "0 < FLAGS_row_count test_flags"
    "\<forall>n. flush_status (fresh_cluster 0 0) n = OK"
    by (simp_all add: test_flags_def fresh_cluster_def)
  have "replicate (nat ((FLAGS_row_count test_flags - 1) div kSessionBatchSize test_flags))
          (nat (kSessionBatchSize test_flags)) = [1000]"
    by (simp add: test_flags_def)
  moreover have "nat ((FLAGS_row_count test_flags - 1) mod kSessionBatchSize test_flags) = 999"
    by (simp add: test_flags_def)
  ultimately show ?thesis using h insert_flush_batches[OF h] by simp
qed

lemma dvd_flush_count:
  assumes K: "0 < (k::int)" and N: "0 < n" and d: "k dvd n"
  shows "int (Suc (nat ((n - 1) div k)) + 1) = n div k + 1"
proof -
  from d have m: "n mod k = 0" by simp
  note p = pred_divmod_dvd[OF K m]
  have "0 \<le> (n - 1) div k" using K N by (simp add: pos_imp_zdiv_nonneg_iff)
  with p(2) show ?thesis by simp
qed

lemma InsertBaseData_flush_count:
  assumes K: "0 < kSessionBatchSize cfg" and N: "0 \<le> FLAGS_row_count cfg"
    and d: "kSessionBatchSize cfg dvd FLAGS_row_count cfg"
    and ok: "\<forall>n. flush_status w n = OK"
    and run: "InsertBaseData cfg w = (out, s')"
  shows "int (length (flushed_batches (trace s'))) = FLAGS_row_count cfg div kSessionBatchSize cfg + 1"
proof (cases "FLAGS_row_count cfg = 0")
  case True
  from InsertBaseData_loaded[OF K ok run] obtain s1 where
    l: "loaded cfg (max 0 (FLAGS_row_count cfg)) s1"
    and f: "flushed_batches (trace s') = flushed_batches (trace s1) @ [pending s1]" by blast
  from l True have "map length (flushed_batches (trace s1)) = []" by (simp add: loaded_def)
  then have "flushed_batches (trace s1) = []" by simp
  with f True show ?thesis by simp
next
  case False
  with N have pos: "0 < FLAGS_row_count cfg" by simp
  from InsertBaseData_batches(1)[OF K pos ok run]
  have "length (map length (flushed_batches (trace s'))) =
      Suc (nat ((FLAGS_row_count cfg - 1) div kSessionBatchSize cfg)) + 1" by simp
  then have "length (flushed_batches (trace s')) =
      Suc (nat ((FLAGS_row_count cfg - 1) div kSessionBatchSize cfg)) + 1" by simp
  with dvd_flush_count[OF K pos d] show ?thesis by simp
qed

lemma InsertBaseData_store:
  assumes K: "0 < kSessionBatchSize cfg" and N: "0 \<le> FLAGS_row_count cfg"
    and ok: "\<forall>n. flush_status w n = OK" and e: "store w = empty_tablet"
    and run: "InsertBaseData cfg w = (out, s')"
  shows "store s' = \<lparr>base = base_rows (FLAGS_row_count cfg), deltas = [], next_seq = 0\<rparr>"
proof -
  from InsertBaseData_loaded[OF K ok run] obtain s1 where
    q: "quiet s'" and a: "accounted (store w) s'" and p: "pending s' = []"
    and l: "loaded cfg (max 0 (FLAGS_row_count cfg)) s1"
    and ap: "applied (trace s') = applied (trace s1)" by blast
  from N have m: "max 0 (FLAGS_row_count cfg) = FLAGS_row_count cfg" by simp
  have c: "concat (flushed_batches (trace s')) =
      map (\<lambda>k. KuduInsert (made_row k 0)) [0..FLAGS_row_count cfg - 1]"
    using a p l ap unfolding m by (simp add: accounted_def loaded_def)
  then have ins: "\<forall>m\<in>set (concat (flushed_batches (trace s'))). \<exists>r. m = KuduInsert r"
    by auto
  have "store s' = foldl (\<lambda>t b. write_batch b t) empty_tablet (flushed_batches (trace s'))"
    using a q e by (simp add: accounted_def settled_def quiet_def)
  also have "\<dots> = empty_tablet\<lparr>base := fst (foldl (\<lambda>acc m. write_op m acc) (base empty_tablet, [])
      (concat (flushed_batches (trace s'))))\<rparr>"
    by (rule foldl_write_batch_inserts[OF ins])
  also have "\<dots> = \<lparr>base = base_rows (FLAGS_row_count cfg), deltas = [], next_seq = 0\<rparr>"
    unfolding c using foldl_write_op_inserts[OF N] by (simp add: empty_tablet_def)
  finally show ?thesis .
qed

lemma snapshot_base_rows:
  "snapshot_rows \<lparr>base = base_rows n, deltas = [], next_seq = 0\<rparr> = base_rows n"
  by (rule trans[OF snapshot_rows_base_only]) (simp_all add: fst_base_rows)

lemma base_rows_keys:
  "0 \<le> n \<Longrightarrow> distinct (map fst (base_rows n)) \<and> int (length (base_rows n)) = n"
  by (simp add: fst_base_rows) (simp add: base_rows_def)


text \<open>
  Claim C3, as the code has it. Inserting the keys \<open>0 .. N - 1\<close> into a fresh table with
  \<open>InsertBaseData\<close>, batch size \<open>K\<close> dividing \<open>N\<close> and every flush answered OK, issues
  exactly \<open>N div K + 1\<close> flushes: one after each key that is a multiple of \<open>K\<close>, which makes
  \<open>N div K\<close> in the loop, and one more after the loop. No flush is issued before the
  completion of the one before it was observed by a wait, every completion is observed
  once and in order, and a scan afterwards returns exactly the \<open>N\<close> distinct keys with the
  rows as inserted.
\<close>

theorem insert_base_data_flushes:
  assumes "0 < kSessionBatchSize cfg" and "0 \<le> FLAGS_row_count cfg"
    and "kSessionBatchSize cfg dvd FLAGS_row_count cfg"
    and "\<forall>n. flush_status w n = OK" and "store w = empty_tablet"
  shows "fst (InsertBaseData cfg w) = Returns OK \<and>
    int (length (flushed_batches (trace (snd (InsertBaseData cfg w))))) =
      FLAGS_row_count cfg div kSessionBatchSize cfg + 1 \<and>
    one_flush_at_a_time (trace (snd (InsertBaseData cfg w))) \<and>
    observed (trace (snd (InsertBaseData cfg w))) =
      [0..<length (flushed_batches (trace (snd (InsertBaseData cfg w))))] \<and>
    snapshot_rows (store (snd (InsertBaseData cfg w))) = base_rows (FLAGS_row_count cfg) \<and>
    distinct (map fst (snapshot_rows (store (snd (InsertBaseData cfg w))))) \<and>
    int (length (snapshot_rows (store (snd (InsertBaseData cfg w))))) = FLAGS_row_count cfg"
proof -
  obtain out s' where run: "InsertBaseData cfg w = (out, s')" by (cases "InsertBaseData cfg w")
  from InsertBaseData_loaded[OF assms(1,4) run]
  have o: "out = Returns OK" and q: "quiet s'" and a: "accounted (store w) s'"
    and f: "flight_of (trace s') = Some Idle" by simp_all
  have obs: "observed (trace s') = [0..<length (flushed_batches (trace s'))]"
    using a f by (simp add: accounted_def tally_def)
  have one: "one_flush_at_a_time (trace s')" using f by (simp add: one_flush_at_a_time_def)
  note c = InsertBaseData_flush_count[OF assms(1,2,3,4) run]
  note st = InsertBaseData_store[OF assms(1,2,4,5) run]
  show ?thesis
    using o obs one c base_rows_keys[OF assms(2)]
    by (simp add: run st snapshot_base_rows)
qed

theorem insert_base_data_flushes_witness:
  "0 < kSessionBatchSize \<lparr>FLAGS_row_count = 1000, kSessionBatchSize = 100\<rparr> \<and>
   (0::int) \<le> FLAGS_row_count \<lparr>FLAGS_row_count = 1000, kSessionBatchSize = 100\<rparr> \<and>
   (\<forall>n. flush_status (fresh_cluster 0 0) n = OK) \<and> store (fresh_cluster 0 0) = empty_tablet \<and>
   fst (InsertBaseData \<lparr>FLAGS_row_count = 1000, kSessionBatchSize = 100\<rparr> (fresh_cluster 0 0)) =
     Returns OK \<and>
   length (flushed_batches (trace (snd (InsertBaseData
     \<lparr>FLAGS_row_count = 1000, kSessionBatchSize = 100\<rparr> (fresh_cluster 0 0))))) = 11 \<and>
   snapshot_rows (store (snd (InsertBaseData
     \<lparr>FLAGS_row_count = 1000, kSessionBatchSize = 100\<rparr> (fresh_cluster 0 0)))) = base_rows 1000"
proof -
  have h: "0 < kSessionBatchSize \<lparr>FLAGS_row_count = 1000, kSessionBatchSize = 100\<rparr>"
    "0 \<le> FLAGS_row_count \<lparr>FLAGS_row_count = 1000, kSessionBatchSize = 100\<rparr>"
    "kSessionBatchSize \<lparr>FLAGS_row_count = 1000, kSessionBatchSize = 100\<rparr>
       dvd FLAGS_row_count \<lparr>FLAGS_row_count = 1000, kSessionBatchSize = 100\<rparr>"
    "\<forall>n. flush_status (fresh_cluster 0 0) n = OK" "store (fresh_cluster 0 0) = empty_tablet"
    by (simp_all add: fresh_cluster_def)
  from insert_base_data_flushes[OF h] h show ?thesis by simp
qed

theorem insert_base_data_flushes_counterexample:
  "length (flushed_batches (trace (snd (InsertBaseData test_flags (fresh_cluster 0 0))))) = 3 \<and>
   FLAGS_row_count test_flags div kSessionBatchSize test_flags = 2 \<and>
   length (flushed_batches (trace (snd (InsertBaseData
     \<lparr>FLAGS_row_count = 1000, kSessionBatchSize = 100\<rparr> (fresh_cluster 0 0))))) = 11 \<and>
   (1000::int) div 100 = 10"
proof -
  have a: "0 < kSessionBatchSize test_flags" "0 \<le> FLAGS_row_count test_flags"
    "kSessionBatchSize test_flags dvd FLAGS_row_count test_flags"
    by (simp_all add: test_flags_def)
  have b: "0 < kSessionBatchSize \<lparr>FLAGS_row_count = 1000, kSessionBatchSize = 100\<rparr>"
    "0 \<le> FLAGS_row_count \<lparr>FLAGS_row_count = 1000, kSessionBatchSize = 100\<rparr>"
    "kSessionBatchSize \<lparr>FLAGS_row_count = 1000, kSessionBatchSize = 100\<rparr>
       dvd FLAGS_row_count \<lparr>FLAGS_row_count = 1000, kSessionBatchSize = 100\<rparr>"
    by simp_all
  have ok: "\<forall>n. flush_status (fresh_cluster 0 0) n = OK" by (simp add: fresh_cluster_def)
  have "int (length (flushed_batches (trace (snd (InsertBaseData test_flags (fresh_cluster 0 0)))))) = 3"
    using InsertBaseData_flush_count[OF a ok, of "fst (InsertBaseData test_flags (fresh_cluster 0 0))"
        "snd (InsertBaseData test_flags (fresh_cluster 0 0))"]
    by (simp add: test_flags_def)
  moreover have "int (length (flushed_batches (trace (snd (InsertBaseData
     \<lparr>FLAGS_row_count = 1000, kSessionBatchSize = 100\<rparr> (fresh_cluster 0 0)))))) = 11"
    using InsertBaseData_flush_count[OF b ok, of
        "fst (InsertBaseData \<lparr>FLAGS_row_count = 1000, kSessionBatchSize = 100\<rparr> (fresh_cluster 0 0))"
        "snd (InsertBaseData \<lparr>FLAGS_row_count = 1000, kSessionBatchSize = 100\<rparr> (fresh_cluster 0 0))"]
    by simp
  ultimately show ?thesis by (simp add: test_flags_def)
qed

subsection \<open>Draining the update loop\<close>

lemma update_rows_accounted:
  "ready s \<Longrightarrow> accounted t0 s \<Longrightarrow> update_rows cfg iteration key s = (out, s') \<Longrightarrow>
   out = Returns OK \<and> ready s' \<and> accounted t0 s'"
proof (induction cfg iteration key s arbitrary: out s' rule: update_rows.induct)
  case (1 cfg iteration key s)
  note r = "1.prems"(1) and a = "1.prems"(2) and run = "1.prems"(3)
  show ?case
  proof (cases "key < FLAGS_row_count cfg")
    case False
    with run r a show ?thesis by (auto simp: update_rows_step[of cfg iteration key s])
  next
    case True
    obtain c s0 where c: "count s = (c, s0)" by (cases "count s")
    from count_cases[OF c] r a have r0: "ready s0" and a0: "accounted t0 s0" by auto
    show ?thesis
    proof (cases "c > 0")
      case False
      with True c r0 a0 run show ?thesis
        by (auto simp: update_rows_step[of cfg iteration key s])
    next
      case pos: True
      let ?s1 = "buffered (KuduUpdate (made_row key iteration)) s0"
      obtain out2 s2 where w: "WaitForLastBatchAndFlush cfg key ?s1 = (out2, s2)"
        by (cases "WaitForLastBatchAndFlush cfg key ?s1")
      have r1: "ready ?s1" by (rule ready_buffered[OF r0])
      have a1: "accounted t0 ?s1" by (rule accounted_buffered[OF a0 ready_session_ok[OF r0]])
      from WaitForLastBatchAndFlush_accounted[OF r1 a1 w]
      have ok: "out2 = Returns OK" and r2: "ready s2" and a2: "accounted t0 s2" by simp_all
      from True c pos w ok run have rec: "update_rows cfg iteration (key + 1) s2 = (out, s')"
        by (simp add: update_rows_step[of cfg iteration key s])
      from ok have nn: "\<not> CHECK_OK out2 \<noteq> Returns OK" by simp
      from "1.IH"[OF True c[symmetric] pos MakeRow_NewUpdate[symmetric] _
          Apply_made_row(2)[symmetric] _ w[symmetric] nn r2 a2 rec]
      show ?thesis by simp
    qed
  qed
qed

lemma Wait_trace:
  "Wait s = (Returns st, s') \<Longrightarrow> \<exists>pre blocked. trace s' = pre @ [EvWait blocked st]"
  by (auto simp: Wait_def Let_def split: option.splits list.splits)

lemma pass_tail:
  assumes r: "ready s2" and a: "accounted t0 s2"
    and w: "WaitForLastBatchAndFlush cfg (kSessionBatchSize cfg) s2 = (Returns OK, s3)"
    and v: "Wait s3 = (Returns OK, s4)"
  shows "drained_tail (trace (Reset s4))"
proof -
  obtain o1 s2a where w1: "Wait s2 = (o1, s2a)" by (cases "Wait s2")
  from Wait_accounted[OF r a w1] have o1: "o1 = Returns OK" and q: "quiet s2a" by simp_all
  from Wait_trace[of s2 OK s2a] w1 o1 obtain pre bl where
    t2: "trace s2a = pre @ [EvWait bl OK]" by auto
  from w w1 o1 have s3: "s3 = FlushAsync (Reset s2a)"
    by (simp add: WaitForLastBatchAndFlush_def)
  let ?n = "flush_count s2a"
  have f3: "in_flight s3 = [(?n, flush_delay s2a ?n, pending s2a)]" "last_s s3 = None"
    "trace s3 = pre @ [EvWait bl OK, EvReset, EvFlushAsync ?n (pending s2a)]"
    "flush_status s3 = flush_status s2a"
    using q t2 unfolding s3 by (simp_all add: FlushAsync_def Reset_def quiet_def)
  from v f3 have st: "flush_status s2a ?n = OK"
    and s4: "trace s4 = trace s3 @ [EvStatusCB (Some ?n) OK, EvWait True OK]"
    by (auto simp: Wait_def Let_def complete_flush_def)
  show ?thesis
    by (simp add: drained_tail_def Reset_def s4 f3)
qed

lemma update_passes_accounted:
  "quiet s \<Longrightarrow> accounted t0 s \<Longrightarrow> flight_of (trace s) = Some Idle \<Longrightarrow> pending s = [] \<Longrightarrow>
   update_passes cfg iteration s = (out, s') \<Longrightarrow>
   out = Returns OK \<and> quiet s' \<and> accounted t0 s' \<and> flight_of (trace s') = Some Idle \<and>
   pending s' = [] \<and> (if 0 < stop_reads s then drained_tail (trace s') else s' = s)"
proof (induction cfg iteration s arbitrary: out s' rule: update_passes.induct)
  case (1 cfg iteration s)
  note q = "1.prems"(1) and a = "1.prems"(2) and f = "1.prems"(3) and p = "1.prems"(4)
    and run = "1.prems"(5)
  obtain c s0 where c: "count s = (c, s0)" by (cases "count s")
  show ?case
  proof (cases "c > 0")
    case False
    with c have "stop_reads s = 0" "s0 = s" by (auto simp: count_def split: if_splits)
    with False c q a f p run show ?thesis by (simp add: update_passes.simps[of cfg iteration s])
  next
    case pos: True
    with c have sr: "0 < stop_reads s" and s0: "s0 = s\<lparr>stop_reads := stop_reads s - 1\<rparr>"
      by (auto simp: count_def split: if_splits)
    have q0: "quiet s0" and a0: "accounted t0 s0" using q a s0 by simp_all
    obtain out1 s2 where u: "update_rows cfg iteration 0 (StatusCB OK s0) = (out1, s2)"
      by (cases "update_rows cfg iteration 0 (StatusCB OK s0)")
    from update_rows_accounted[OF ready_StatusCB[OF q0] accounted_StatusCB[OF a0] u]
    have o1: "out1 = Returns OK" and r2: "ready s2" and a2: "accounted t0 s2" by simp_all
    obtain out2 s3 where w: "WaitForLastBatchAndFlush cfg (kSessionBatchSize cfg) s2 = (out2, s3)"
      by (cases "WaitForLastBatchAndFlush cfg (kSessionBatchSize cfg) s2")
    from WaitForLastBatchAndFlush_accounted[OF r2 a2 w]
    have o2: "out2 = Returns OK" and r3: "ready s3" and a3: "accounted t0 s3" by simp_all
    from WaitForLastBatchAndFlush_history[of cfg "kSessionBatchSize cfg" s2 s3] w o2
    have p3: "pending s3 = []" by simp
    obtain out3 s4 where v: "Wait s3 = (out3, s4)" by (cases "Wait s3")
    from Wait_accounted[OF r3 a3 v] p3
    have o3: "out3 = Returns OK" and a4: "accounted t0 s4" and q4: "quiet s4"
      and f4: "flight_of (trace s4) = Some Idle" and p4: "pending s4 = []" by simp_all
    have tail: "drained_tail (trace (Reset s4))"
      using pass_tail[OF r2 a2] w o2 v o3 by simp
    have q5: "quiet (Reset s4)" by (rule quiet_Reset[OF q4 f4])
    have a5: "accounted t0 (Reset s4)" by (rule accounted_Reset[OF a4])
    have f5: "flight_of (trace (Reset s4)) = Some Idle" using f4 by (simp add: Reset_def flight_of_snoc)
    have p5: "pending (Reset s4) = []" using p4 by (simp add: Reset_def)
    from c pos u o1 w o2 v o3 run
    have rec: "update_passes cfg (iteration + 1) (Reset s4) = (out, s')"
      by (simp add: update_passes.simps[of cfg iteration s])
    from o1 o2 o3 have nn: "\<not> out1 \<noteq> Returns OK" "\<not> CHECK_OK out2 \<noteq> Returns OK"
      "\<not> CHECK_OK out3 \<noteq> Returns OK" by simp_all
    from "1.IH"[OF c[symmetric] pos u[symmetric] nn(1) w[symmetric] nn(2) v[symmetric] nn(3)
        q5 a5 f5 p5 rec] tail sr
    show ?thesis by (auto split: if_splits)
  qed
qed


text \<open>
  Claim C10. Whenever the stop latch drops, also in the middle of a pass, \<open>UpdateRows\<close>
  returns (with a positive batch size and a server that answers every flush with OK): no
  check fails and no wait blocks for ever. If at least one pass was started, its history
  ends with a wait on the flush that was outstanding, a reset, one last flush, the
  completion of that flush, the wait that observed it, and a reset. On exit nothing is
  buffered and nothing is in flight, the flushed batches hold exactly the applied updates
  in order, and the completions observed by waits are those of all flushes issued, each
  once and in order.
\<close>

theorem update_rows_drains_on_stop:
  assumes "0 < kSessionBatchSize cfg" and "\<forall>n. flush_status w n = OK"
  shows "fst (UpdateRows cfg w) = Returns OK \<and>
    pending (snd (UpdateRows cfg w)) = [] \<and>
    in_flight (snd (UpdateRows cfg w)) = [] \<and>
    concat (flushed_batches (trace (snd (UpdateRows cfg w)))) =
      applied (trace (snd (UpdateRows cfg w))) \<and>
    observed (trace (snd (UpdateRows cfg w))) =
      [0..<length (flushed_batches (trace (snd (UpdateRows cfg w))))] \<and>
    (if 0 < stop_reads w then drained_tail (trace (snd (UpdateRows cfg w)))
     else trace (snd (UpdateRows cfg w)) = [])"
proof -
  obtain out s' where run: "update_passes cfg 1 (CreateSession w) = (out, s')"
    by (cases "update_passes cfg 1 (CreateSession w)")
  have f: "flight_of (trace (CreateSession w)) = Some Idle" and p: "pending (CreateSession w) = []"
    and sr: "stop_reads (CreateSession w) = stop_reads w" and t: "trace (CreateSession w) = []"
    by (simp_all add: CreateSession_def)
  from update_passes_accounted[OF quiet_CreateSession accounted_CreateSession[OF assms(2)] f p run]
  have o: "out = Returns OK" and q: "quiet s'" and a: "accounted (store w) s'"
    and f': "flight_of (trace s') = Some Idle" and p': "pending s' = []"
    and tl: "if 0 < stop_reads w then drained_tail (trace s') else s' = CreateSession w"
    by (simp_all add: sr)
  have obs: "observed (trace s') = [0..<length (flushed_batches (trace s'))]"
    using a f' by (simp add: accounted_def tally_def)
  have c: "concat (flushed_batches (trace s')) = applied (trace s')"
    using a p' by (simp add: accounted_def)
  from o q p' obs c tl t show ?thesis
    by (auto simp: UpdateRows_def run quiet_def split: if_splits)
qed

theorem update_rows_drains_on_stop_witness:
  "0 < kSessionBatchSize \<lparr>FLAGS_row_count = 5, kSessionBatchSize = 2\<rparr> \<and>
   (\<forall>n. flush_status (fresh_cluster 1 10) n = OK) \<and>
   0 < stop_reads (fresh_cluster 1 10) \<and>
   fst (UpdateRows \<lparr>FLAGS_row_count = 5, kSessionBatchSize = 2\<rparr> (fresh_cluster 1 10)) = Returns OK \<and>
   pending (snd (UpdateRows \<lparr>FLAGS_row_count = 5, kSessionBatchSize = 2\<rparr> (fresh_cluster 1 10))) = [] \<and>
   in_flight (snd (UpdateRows \<lparr>FLAGS_row_count = 5, kSessionBatchSize = 2\<rparr> (fresh_cluster 1 10))) = [] \<and>
   drained_tail (trace (snd (UpdateRows \<lparr>FLAGS_row_count = 5, kSessionBatchSize = 2\<rparr>
     (fresh_cluster 1 10)))) \<and>
   map length (flushed_batches (trace (snd (UpdateRows
     \<lparr>FLAGS_row_count = 5, kSessionBatchSize = 2\<rparr> (fresh_cluster 1 10))))) = [1, 2, 2, 0, 1, 2, 0]"
proof -
  have h: "0 < kSessionBatchSize \<lparr>FLAGS_row_count = 5, kSessionBatchSize = 2\<rparr>"
    "\<forall>n. flush_status (fresh_cluster 1 10) n = OK"
    by (simp_all add: fresh_cluster_def)
  have s: "0 < stop_reads (fresh_cluster 1 10)" by (simp add: fresh_cluster_def)
  have e: "map length (flushed_batches (trace (snd (UpdateRows
      \<lparr>FLAGS_row_count = 5, kSessionBatchSize = 2\<rparr> (fresh_cluster 1 10))))) = [1, 2, 2, 0, 1, 2, 0]"
    by code_simp
  from update_rows_drains_on_stop[OF h] h s e show ?thesis by simp
qed

subsection \<open>The first wait of the insert run\<close>

lemma first_wait_append: "first_wait xs = Some r \<Longrightarrow> first_wait (xs @ ys) = Some r"
  by (induction xs rule: first_wait.induct) simp_all

lemma first_wait_append_None:
  "first_wait xs = None \<Longrightarrow> first_wait (xs @ ys) = first_wait ys"
  by (induction xs rule: first_wait.induct) simp_all

lemma complete_flush_extends: "\<exists>es. trace (complete_flush s) = trace s @ es"
  by (simp add: complete_flush_def split: list.splits)

lemma buffered_extends: "\<exists>es. trace (buffered m s) = trace s @ es"
  using complete_flush_extends[of s]
  by (auto simp: buffered_def executor_step_def split: list.splits)

lemma Wait_extends: "Wait s = (out, s') \<Longrightarrow> \<exists>es. trace s' = trace s @ es"
  using complete_flush_extends[of s]
  by (auto simp: Wait_def Let_def split: option.splits list.splits)

lemma WaitForLastBatchAndFlush_extends:
  "WaitForLastBatchAndFlush cfg key s = (out, s') \<Longrightarrow> \<exists>es. trace s' = trace s @ es"
  by (auto simp: WaitForLastBatchAndFlush_def FlushAsync_def Reset_def
      split: if_splits prod.splits dest!: Wait_extends)

lemma first_wait_kept:
  "first_wait (trace s) = Some r \<Longrightarrow> \<exists>es. trace s' = trace s @ es \<Longrightarrow>
   first_wait (trace s') = Some r"
  by (auto simp: first_wait_append)

lemma insert_rows_first_wait:
  "first_wait (trace s) = Some r \<Longrightarrow> insert_rows cfg key s = (out, s') \<Longrightarrow>
   first_wait (trace s') = Some r"
proof (induction cfg key s arbitrary: out s' rule: insert_rows.induct)
  case (1 cfg key s)
  show ?case
  proof (cases "key < FLAGS_row_count cfg")
    case False
    with "1.prems" show ?thesis by (auto simp: insert_rows_step[of cfg key s])
  next
    case True
    let ?s1 = "buffered (KuduInsert (made_row key 0)) s"
    obtain out2 s2 where w: "WaitForLastBatchAndFlush cfg key ?s1 = (out2, s2)"
      by (cases "WaitForLastBatchAndFlush cfg key ?s1")
    have f1: "first_wait (trace ?s1) = Some r"
      by (rule first_wait_kept[OF "1.prems"(1) buffered_extends])
    have f2: "first_wait (trace s2) = Some r"
      by (rule first_wait_kept[OF f1 WaitForLastBatchAndFlush_extends[OF w]])
    show ?thesis
    proof (cases "out2 = Returns OK")
      case False
      with True w f2 "1.prems"(2) show ?thesis by (auto simp: insert_rows_step[of cfg key s])
    next
      case ok: True
      with True w "1.prems"(2) have rec: "insert_rows cfg (key + 1) s2 = (out, s')"
        by (simp add: insert_rows_step[of cfg key s])
      from ok have nn: "\<not> out2 \<noteq> Returns OK" by simp
      show ?thesis
        by (rule "1.IH"[OF True MakeRow_NewInsert[symmetric] _ Apply_made_row(1)[symmetric] _
              w[symmetric] nn f2 rec]) simp_all
    qed
  qed
qed

lemma Wait_resolved:
  "Wait (s\<lparr>last_s := Some st\<rparr>) =
     (Returns st, s\<lparr>last_s := Some st, trace := trace s @ [EvWait False st]\<rparr>)"
  by (simp add: Wait_def)

lemma first_call_state:
  "buffered m (StatusCB OK (CreateSession w)) =
     (CreateSession w)\<lparr>pending := [m], last_s := Some OK, trace := [EvStatusCB None OK, EvApply m]\<rparr>"
  by (simp add: buffered_def executor_step_def StatusCB_def CreateSession_def)

lemma smod_0_left [simp]: "(0::int) smod k = 0"
  by (simp add: smod_int_alt_def)

lemma first_call_returns:
  "WaitForLastBatchAndFlush cfg 0 (buffered m (StatusCB OK (CreateSession w))) =
     (Returns OK,
      FlushAsync (Reset ((buffered m (StatusCB OK (CreateSession w)))
        \<lparr>trace := [EvStatusCB None OK, EvApply m, EvWait False OK]\<rparr>)))"
  by (simp add: WaitForLastBatchAndFlush_def first_call_state Wait_def)

lemma InsertBaseData_first_wait:
  "first_wait (trace (snd (InsertBaseData cfg w))) = Some (False, OK)"
proof -
  let ?s0 = "StatusCB OK (CreateSession w)"
  obtain out1 s1 where i: "insert_rows cfg 0 ?s0 = (out1, s1)" by (cases "insert_rows cfg 0 ?s0")
  show ?thesis
  proof (cases "0 < FLAGS_row_count cfg")
    case True
    let ?m = "KuduInsert (made_row 0 0)"
    let ?s2 = "FlushAsync (Reset ((buffered ?m ?s0)
        \<lparr>trace := [EvStatusCB None OK, EvApply ?m, EvWait False OK]\<rparr>))"
    have f2: "first_wait (trace ?s2) = Some (False, OK)"
      by (simp add: FlushAsync_def Reset_def)
    from i True have rec: "insert_rows cfg (0 + 1) ?s2 = (out1, s1)"
      by (simp add: insert_rows_step[of cfg 0 ?s0] first_call_returns)
    have f1: "first_wait (trace s1) = Some (False, OK)"
      by (rule insert_rows_first_wait[OF f2 rec])
    show ?thesis
    proof (cases "out1 = Returns OK")
      case False
      with i f1 show ?thesis by (simp add: InsertBaseData_def Let_def)
    next
      case ok: True
      obtain out2 s3 where w: "WaitForLastBatchAndFlush cfg (kSessionBatchSize cfg) s1 = (out2, s3)"
        by (cases "WaitForLastBatchAndFlush cfg (kSessionBatchSize cfg) s1")
      have f3: "first_wait (trace s3) = Some (False, OK)"
        by (rule first_wait_kept[OF f1 WaitForLastBatchAndFlush_extends[OF w]])
      obtain out3 s4 where v: "Wait s3 = (out3, s4)" by (cases "Wait s3")
      have f4: "first_wait (trace s4) = Some (False, OK)"
        by (rule first_wait_kept[OF f3 Wait_extends[OF v]])
      from i ok w v f3 f4 show ?thesis by (simp add: InsertBaseData_def Let_def)
    qed
  next
    case False
    with i have s1: "s1 = ?s0" and o1: "out1 = Returns OK"
      by (simp_all add: insert_rows_step[of cfg 0 ?s0])
    let ?s3 = "FlushAsync (Reset (?s0\<lparr>trace := [EvStatusCB None OK, EvWait False OK]\<rparr>))"
    have w: "WaitForLastBatchAndFlush cfg (kSessionBatchSize cfg) ?s0 = (Returns OK, ?s3)"
      by (simp add: WaitForLastBatchAndFlush_def Wait_def StatusCB_def CreateSession_def)
    have f3: "first_wait (trace ?s3) = Some (False, OK)" by (simp add: FlushAsync_def Reset_def)
    obtain out3 s4 where v: "Wait ?s3 = (out3, s4)" by (cases "Wait ?s3")
    have f4: "first_wait (trace s4) = Some (False, OK)"
      by (rule first_wait_kept[OF f3 Wait_extends[OF v]])
    from i s1 o1 w v f4 show ?thesis by (simp add: InsertBaseData_def Let_def)
  qed
qed

text \<open>
  Claim C6. A \<open>Wait\<close> on a synchronizer that is already resolved with status \<open>st\<close> returns
  \<open>st\<close> at once: nothing but the history changes, whatever is in flight. In
  \<open>InsertBaseData\<close> the callback is run with OK before the loop, so the first call of
  \<open>WaitForLastBatchAndFlush\<close> (key 0, right after the first apply) returns OK without
  blocking and goes on to reset and flush; and whatever the row count, the first wait of
  the whole run is a wait that did not block and returned OK.
\<close>

theorem wait_on_resolved_synchronizer:
  "Wait (s\<lparr>last_s := Some st\<rparr>) =
     (Returns st, s\<lparr>last_s := Some st, trace := trace s @ [EvWait False st]\<rparr>) \<and>
   WaitForLastBatchAndFlush cfg 0 (buffered m (StatusCB OK (CreateSession w))) =
     (Returns OK,
      FlushAsync (Reset ((buffered m (StatusCB OK (CreateSession w)))
        \<lparr>trace := [EvStatusCB None OK, EvApply m, EvWait False OK]\<rparr>))) \<and>
   first_wait (trace (snd (InsertBaseData cfg w))) = Some (False, OK)"
  by (simp add: Wait_resolved first_call_returns InsertBaseData_first_wait)

subsection \<open>Rows made by \<open>MakeRow\<close>\<close>

text \<open>
  Claim C7. On an empty row of the test schema \<open>MakeRow\<close> never fails a check and sets
  all three columns, the primary key included, each with a value of the column's type.
  Hence an insert or an update carrying such a row passes both checks of \<open>Apply\<close>: the
  session never answers \<open>SchemaMismatch\<close> or \<open>InvalidPrimaryKey\<close> for it, it answers OK.
\<close>

theorem made_rows_pass_apply:
  "MakeRow key val (mutable_row NewInsert) = (Returns OK, made_row key val) \<and>
   MakeRow key val (mutable_row NewUpdate) = (Returns OK, made_row key val) \<and>
   list_all (\<lambda>c. c \<noteq> None) (cells (made_row key val)) \<and>
   length (cells (made_row key val)) = length schema \<and>
   columns_match schema (made_row key val) \<and>
   primary_key_set schema (made_row key val) \<and>
   apply_check schema (KuduInsert (snd (MakeRow key val (mutable_row NewInsert)))) = OK \<and>
   apply_check schema (KuduUpdate (snd (MakeRow key val (mutable_row NewUpdate)))) = OK \<and>
   fst (Apply (KuduInsert (snd (MakeRow key val (mutable_row NewInsert)))) s) = OK \<and>
   fst (Apply (KuduUpdate (snd (MakeRow key val (mutable_row NewUpdate)))) s) = OK"
  by (simp add: columns_match_made_row primary_key_set_made_row)
     (simp add: made_row_def schema_def)

section \<open>Shutting the initialiser down\<close>

text \<open>
  Claim C5. \<open>Shutdown\<close> sets the cancellation flag and nothing else: the builder, the
  promise (so nothing is resolved), the future and the thread (so nothing is joined or
  aborted) are as before. The retry loop, at the check point that follows, sees the flag
  and leaves: it resolves a future that is still pending with \<open>Cancelled\<close> and leaves
  one that is already resolved (construction succeeded, or failed) as it is.
\<close>

theorem shutdown_sets_only_the_flag:
  "Shutdown a = a\<lparr>stopping := True\<rparr> \<and>
   stopping (Shutdown a) \<and>
   client_builder (Shutdown a) = client_builder a \<and>
   client_promise (Shutdown a) = client_promise a \<and>
   client_future (Shutdown a) = client_future a \<and>
   get_client_future (Shutdown a) = get_client_future a \<and>
   init_client_thread (Shutdown a) = init_client_thread a \<and>
   InitClient (Shutdown a) attempt =
     Some (a\<lparr>stopping := True,
             client_promise :=
               (case client_promise a of Pending \<Rightarrow> Failed Cancelled | resolved \<Rightarrow> resolved),
             init_client_thread := Exited\<rparr>) \<and>
   InitClient (Shutdown (a\<lparr>client_promise := Pending\<rparr>)) attempt =
     Some (a\<lparr>stopping := True, client_promise := Failed Cancelled,
             init_client_thread := Exited\<rparr>) \<and>
   InitClient (Shutdown (a\<lparr>client_promise := Ready c\<rparr>)) attempt =
     Some (a\<lparr>stopping := True, client_promise := Ready c, init_client_thread := Exited\<rparr>)"
  by (simp add: Shutdown_def get_client_future_def InitClient.simps)

end
